theory Spec2Isabelle
  imports Complex_Main "HOL-Library.AList"
begin

section \<open>Shared data model\<close>

text \<open>
  Both scripts absorb or propagate Python exceptions. The model keeps one value per kind
  of failure that decides a branch: an unreadable or unencodable source file, a failed
  call to the batch service, a document that does not parse, and Python's own
  \<^verbatim>\<open>IndexError\<close> and \<^verbatim>\<open>KeyError\<close>.
\<close>

datatype error = FileError | EncodeError | ServiceError | DecodeError | IndexError | KeyError

text \<open>
  One entry of \<^verbatim>\<open>state["active_batches"]\<close>, as \<^verbatim>\<open>submit_new_batch\<close>
  writes it. The refresh reads \<^verbatim>\<open>total_tokens\<close> once by subscript and once with
  \<^verbatim>\<open>.get("total_tokens", 0)\<close>, so the key may be absent: the field is optional.
\<close>

record batch_info =
  status :: string
  submitted_at :: real
  input_file_id :: string
  total_tokens :: "int option"
  file_count :: nat

text \<open>
  A Python dict is an association list with distinct keys, in insertion order:
  \<^term>\<open>map_of\<close> is the lookup, \<^const>\<open>AList.update\<close> the assignment
  \<^verbatim>\<open>d[k] = v\<close> (an existing key keeps its place, a new one goes last) and
  \<^const>\<open>AList.delete\<close> is \<^verbatim>\<open>del d[k]\<close>.
\<close>

type_synonym ('k, 'v) dict = "('k \<times> 'v) list"

text \<open>The submission state, \<^verbatim>\<open>self.state\<close> of \<^verbatim>\<open>SegmentationBatchManager\<close>.\<close>

record state =
  last_file_submitted_index :: int
  active_batches :: "(string, batch_info) dict"
  source_files :: "string list"
  all_files_submitted :: bool

text \<open>
  The manager: the state in memory and the content of \<^verbatim>\<open>STATE_FILE\<close> as
  \<^verbatim>\<open>_save_state\<close> last wrote it (\<open>None\<close> while nothing has been written).
\<close>

record manager =
  state :: state
  state_file :: "state option"

definition save_state :: "manager \<Rightarrow> manager" where
  "save_state m = m\<lparr>state_file := Some (state m)\<rparr>"

section \<open>The submission script (batch\_itemizer.py)\<close>

definition MAX_FILES_PER_BATCH :: int where
  "MAX_FILES_PER_BATCH = 5000"

definition QUEUE_LIMIT_TOKENS :: int where
  "QUEUE_LIMIT_TOKENS = 900000000"

text \<open>One element of \<^verbatim>\<open>files_for_batch\<close>.\<close>

record file_data =
  filename :: string
  content :: string

text \<open>
  What the script asks of the outside world. \<open>read_prefixed\<close> is opening a source file,
  reading its lines and joining them with their \<^verbatim>\<open><line n>\<close> prefixes (lines 217 to
  219); \<open>encode_len\<close> is \<^verbatim>\<open>len(self.encoder.encode(text))\<close>; \<open>system_prompt_tokens\<close>
  is that length for \<^verbatim>\<open>SYSTEM_PROMPT\<close>; \<open>retrieve_status\<close> is
  \<^verbatim>\<open>client.batches.retrieve(id).status\<close>; \<open>create_batch\<close> is the \<^verbatim>\<open>try\<close> block of
  lines 262 to 275 for the batch written to the request file: the upload and
  \<^verbatim>\<open>client.batches.create\<close>, giving the new batch's id, its status and the id of the
  uploaded file; \<open>clock\<close> is \<^verbatim>\<open>time.time()\<close>. Each call either returns or
  raises. Writes to the script's own state, request and log files are taken to succeed.
\<close>

record itemizer_env =
  system_prompt_tokens :: nat
  read_prefixed :: "string \<Rightarrow> error + string"
  encode_len :: "string \<Rightarrow> error + nat"
  retrieve_status :: "string \<Rightarrow> error + string"
  create_batch :: "file_data list \<Rightarrow> error + (string \<times> string \<times> string)"
  clock :: real

subsection \<open>get\_current\_queue\_size\<close>

definition active_statuses :: "string list" where
  "active_statuses = [''validating'', ''in_progress'', ''finalizing'']"

definition terminal_statuses :: "string list" where
  "terminal_statuses = [''completed'', ''failed'', ''cancelled'', ''expired'']"

text \<open>\<^verbatim>\<open>record.get("total_tokens", 0)\<close>: the cost committed when the batch was submitted.\<close>

definition committed_tokens :: "batch_info \<Rightarrow> int" where
  "committed_tokens r = (case total_tokens r of Some t \<Rightarrow> t | None \<Rightarrow> 0)"

text \<open>
  The loop of lines 179 to 192 over the snapshot \<^verbatim>\<open>list(active_batches.keys())\<close>.
  A key that is no longer in the dict makes the subscript of the \<^verbatim>\<open>except\<close> block
  raise an uncaught \<^verbatim>\<open>KeyError\<close>, on the failure path and on the success path
  alike (there the assignment of the status raises first and is caught). In the
  \<^verbatim>\<open>try\<close> block a record without \<^verbatim>\<open>total_tokens\<close> raises at the subscript of
  line 186 and the \<^verbatim>\<open>except\<close> block then adds the default of its \<^verbatim>\<open>.get\<close>.
\<close>

fun queue_size_loop ::
  "(string \<Rightarrow> error + string) \<Rightarrow> string list \<Rightarrow> (string, batch_info) dict \<Rightarrow> int
    \<Rightarrow> error + ((string, batch_info) dict \<times> int)" where
  "queue_size_loop retrieve [] batches total_tok = Inr (batches, total_tok)"
| "queue_size_loop retrieve (batch_id # ids) batches total_tok =
    (case map_of batches batch_id of
       None \<Rightarrow> Inl KeyError
     | Some r \<Rightarrow>
        (case retrieve batch_id of
           Inl e \<Rightarrow> queue_size_loop retrieve ids batches (total_tok + committed_tokens r)
         | Inr st \<Rightarrow>
            (let r' = r\<lparr>status := st\<rparr>;
                 batches' = AList.update batch_id r' batches
             in if st \<in> set active_statuses then
                  (case total_tokens r' of
                     Some t \<Rightarrow> queue_size_loop retrieve ids batches' (total_tok + t)
                   | None \<Rightarrow> queue_size_loop retrieve ids batches' (total_tok + committed_tokens r'))
                else if st \<in> set terminal_statuses then
                  queue_size_loop retrieve ids (AList.delete batch_id batches') total_tok
                else queue_size_loop retrieve ids batches' total_tok)))"

definition get_current_queue_size ::
  "itemizer_env \<Rightarrow> manager \<Rightarrow> error + (manager \<times> int)" where
  "get_current_queue_size env m =
    (if active_batches (state m) = [] then Inr (m, 0)
     else
       (case queue_size_loop (retrieve_status env) (map fst (active_batches (state m)))
               (active_batches (state m)) 0 of
          Inl e \<Rightarrow> Inl e
        | Inr (batches', total_tok) \<Rightarrow>
            Inr (save_state (m\<lparr>state := (state m)\<lparr>active_batches := batches'\<rparr>\<rparr>), total_tok)))"

subsection \<open>submit\_new\_batch\<close>

text \<open>\<^verbatim>\<open>os.path.basename\<close>: what follows the last slash.\<close>

definition basename :: "string \<Rightarrow> string" where
  "basename p = rev (takeWhile (\<lambda>c. c \<noteq> CHR ''/'') (rev p))"

text \<open>
  \<^verbatim>\<open>xs[i]\<close> on a Python list: a negative index counts from the end, an index out of
  range raises \<^verbatim>\<open>IndexError\<close>.
\<close>

definition py_index :: "'a list \<Rightarrow> int \<Rightarrow> error + 'a" where
  "py_index xs i =
    (if 0 \<le> i \<and> i < int (length xs) then Inr (xs ! nat i)
     else if i < 0 \<and> - int (length xs) \<le> i then Inr (xs ! nat (int (length xs) + i))
     else Inl IndexError)"

text \<open>Line 220: the cost of one request, the system prompt's tokens plus the content's.\<close>

definition request_tokens :: "itemizer_env \<Rightarrow> string \<Rightarrow> error + nat" where
  "request_tokens env prefixed_content =
    (case encode_len env prefixed_content of
       Inl e \<Rightarrow> Inl e
     | Inr n \<Rightarrow> Inr (system_prompt_tokens env + n))"

text \<open>Lines 217 to 220: the part of the \<^verbatim>\<open>try\<close> block that can raise.\<close>

definition load_request :: "itemizer_env \<Rightarrow> string \<Rightarrow> error + (string \<times> nat)" where
  "load_request env filepath =
    (case read_prefixed env filepath of
       Inl e \<Rightarrow> Inl e
     | Inr prefixed_content \<Rightarrow>
        (case request_tokens env prefixed_content of
           Inl e \<Rightarrow> Inl e
         | Inr n \<Rightarrow> Inr (prefixed_content, n)))"

text \<open>
  What happened at one index of the scan: the file was appended to the batch, it raised
  and was logged (\<^verbatim>\<open>Could not read or process file ... Skipping\<close>), or the loop
  stopped at it with \<^verbatim>\<open>break\<close>.
\<close>

datatype scan_event = Packed int | Skipped int | Stopped int

fun event_index :: "scan_event \<Rightarrow> int" where
  "event_index (Packed i) = i"
| "event_index (Skipped i) = i"
| "event_index (Stopped i) = i"

text \<open>
  The local variables of the scan. \<open>exhausted\<close> is set by the \<^verbatim>\<open>else\<close> of the
  \<^verbatim>\<open>for\<close>, that is when the loop ended without \<^verbatim>\<open>break\<close>; \<open>events\<close> is
  the log of the scan, in order.
\<close>

record scan_state =
  files_for_batch :: "file_data list"
  batch_total_tokens :: int
  last_file_index_in_batch :: int
  exhausted :: bool
  events :: "scan_event list"

text \<open>
  The loop of lines 212 to 233 over the indices of \<^verbatim>\<open>range(start_index, len(source_files))\<close>.
  The subscript of line 213 is outside the \<^verbatim>\<open>try\<close> block: its \<^verbatim>\<open>IndexError\<close>
  leaves the function.
\<close>

fun scan_files ::
  "itemizer_env \<Rightarrow> int \<Rightarrow> string list \<Rightarrow> int list \<Rightarrow> scan_state \<Rightarrow> error + scan_state" where
  "scan_files env available_token_capacity files [] sc = Inr (sc\<lparr>exhausted := True\<rparr>)"
| "scan_files env available_token_capacity files (i # rest) sc =
    (case py_index files i of
       Inl e \<Rightarrow> Inl e
     | Inr filepath \<Rightarrow>
        (case load_request env filepath of
           Inl e \<Rightarrow>
             scan_files env available_token_capacity files rest
               (sc\<lparr>last_file_index_in_batch := i, events := events sc @ [Skipped i]\<rparr>)
         | Inr (prefixed_content, n) \<Rightarrow>
             if batch_total_tokens sc + int n > available_token_capacity
                \<or> int (length (files_for_batch sc)) \<ge> MAX_FILES_PER_BATCH
             then Inr (sc\<lparr>events := events sc @ [Stopped i]\<rparr>)
             else
               scan_files env available_token_capacity files rest
                 (sc\<lparr>files_for_batch := files_for_batch sc
                        @ [\<lparr>filename = basename filepath, content = prefixed_content\<rparr>],
                     batch_total_tokens := batch_total_tokens sc + int n,
                     last_file_index_in_batch := i,
                     events := events sc @ [Packed i]\<rparr>)))"

text \<open>
  What one call did, for the caller to inspect: the batch it built, the log of its scan,
  and whether the service accepted the batch.
\<close>

record build_report =
  built :: "file_data list"
  scan_log :: "scan_event list"
  accepted :: bool

definition submit_new_batch ::
  "itemizer_env \<Rightarrow> int \<Rightarrow> manager \<Rightarrow> error + (manager \<times> build_report)" where
  "submit_new_batch env available_token_capacity m =
    (if all_files_submitted (state m) then
       Inr (m, \<lparr>built = [], scan_log = [], accepted = False\<rparr>)
     else
       (case scan_files env available_token_capacity (source_files (state m))
               [last_file_submitted_index (state m) + 1 .. int (length (source_files (state m))) - 1]
               \<lparr>files_for_batch = [], batch_total_tokens = 0,
                last_file_index_in_batch = last_file_submitted_index (state m),
                exhausted = False, events = []\<rparr> of
          Inl e \<Rightarrow> Inl e
        | Inr sc \<Rightarrow>
           (let s1 = (state m)\<lparr>last_file_submitted_index := last_file_index_in_batch sc,
                               all_files_submitted := exhausted sc\<rparr>;
                m1 = m\<lparr>state := s1\<rparr>
            in if files_for_batch sc = [] then
                 Inr (save_state m1,
                      \<lparr>built = [], scan_log = events sc, accepted = False\<rparr>)
               else
                 (case create_batch env (files_for_batch sc) of
                    Inl e \<Rightarrow>
                      Inr (m1, \<lparr>built = files_for_batch sc, scan_log = events sc,
                                accepted = False\<rparr>)
                  | Inr (new_id, new_status, uploaded_id) \<Rightarrow>
                      Inr (save_state
                             (m1\<lparr>state := s1\<lparr>active_batches :=
                                   AList.update new_id
                                     \<lparr>status = new_status, submitted_at = clock env,
                                      input_file_id = uploaded_id,
                                      total_tokens = Some (batch_total_tokens sc),
                                      file_count = length (files_for_batch sc)\<rparr>
                                     (active_batches s1)\<rparr>\<rparr>),
                           \<lparr>built = files_for_batch sc, scan_log = events sc,
                            accepted = True\<rparr>)))))"

text \<open>
  A sequence of calls, each with the capacity and the outside world of its moment. The
  refresh between two calls of the main loop changes \<open>active_batches\<close> only, which the
  scan never reads.
\<close>

fun submit_sequence ::
  "(itemizer_env \<times> int) list \<Rightarrow> manager \<Rightarrow> error + (manager \<times> build_report) list" where
  "submit_sequence [] m = Inr []"
| "submit_sequence ((env, cap) # calls) m =
    (case submit_new_batch env cap m of
       Inl e \<Rightarrow> Inl e
     | Inr (m', rep) \<Rightarrow>
        (case submit_sequence calls m' of
           Inl e \<Rightarrow> Inl e
         | Inr outs \<Rightarrow> Inr ((m', rep) # outs)))"

subsection \<open>run\<close>

text \<open>
  The main loop of the submission script (lines 284 to 299). The list gives the outside
  world of each iteration; the result lists the manager after the refresh and after the
  batch-building step of every iteration, in order, and ends where the loop breaks or
  where the given iterations are used up.
\<close>

fun submission_run :: "itemizer_env list \<Rightarrow> manager \<Rightarrow> error + manager list" where
  "submission_run [] m = Inr []"
| "submission_run (env # later) m =
    (case get_current_queue_size env m of
       Inl e \<Rightarrow> Inl e
     | Inr (m1, current_queue_size) \<Rightarrow>
        (case (if QUEUE_LIMIT_TOKENS - current_queue_size > 0
               then submit_new_batch env (QUEUE_LIMIT_TOKENS - current_queue_size) m1
               else Inr (m1, \<lparr>built = [], scan_log = [], accepted = False\<rparr>)) of
           Inl e \<Rightarrow> Inl e
         | Inr (m2, rep) \<Rightarrow>
             if all_files_submitted (state m2) \<and> active_batches (state m2) = []
             then Inr [m1, m2]
             else
               (case submission_run later m2 of
                  Inl e \<Rightarrow> Inl e
                | Inr ms \<Rightarrow> Inr (m1 # m2 # ms))))"

text \<open>
  The invariant of the proofs about a handle that has left the map: it is a key neither
  of \<^verbatim>\<open>active_batches\<close> in memory nor of the state last saved.
\<close>

definition untracked :: "string \<Rightarrow> manager \<Rightarrow> bool" where
  "untracked h m =
    (h \<notin> fst ` set (active_batches (state m))
     \<and> (case state_file m of None \<Rightarrow> True | Some s \<Rightarrow> h \<notin> fst ` set (active_batches s)))"

subsection \<open>Reading the scan log\<close>

text \<open>
  The index an event consumed: a packed or a skipped file moves the provisional cursor
  (lines 227 and 231), the file the loop stopped at does not.
\<close>

fun consumed_index :: "scan_event \<Rightarrow> int option" where
  "consumed_index (Packed i) = Some i"
| "consumed_index (Skipped i) = Some i"
| "consumed_index (Stopped i) = None"


text \<open>
  The element of \<^verbatim>\<open>files_for_batch\<close> that a \<open>Packed\<close> event stands for, and what
  each kind of event says about the file at its index.
\<close>

fun packed_file :: "itemizer_env \<Rightarrow> string list \<Rightarrow> scan_event \<Rightarrow> file_data list" where
  "packed_file env files (Packed i) =
    (case py_index files i of
       Inl e \<Rightarrow> []
     | Inr p \<Rightarrow>
        (case load_request env p of
           Inl e \<Rightarrow> []
         | Inr (c, n) \<Rightarrow> [\<lparr>filename = basename p, content = c\<rparr>]))"
| "packed_file env files (Skipped i) = []"
| "packed_file env files (Stopped i) = []"

fun event_sound :: "itemizer_env \<Rightarrow> string list \<Rightarrow> scan_event \<Rightarrow> bool" where
  "event_sound env files (Packed i) =
    (case py_index files i of Inl e \<Rightarrow> False | Inr p \<Rightarrow> \<not> isl (load_request env p))"
| "event_sound env files (Skipped i) =
    (case py_index files i of Inl e \<Rightarrow> False | Inr p \<Rightarrow> isl (load_request env p))"
| "event_sound env files (Stopped i) =
    (case py_index files i of Inl e \<Rightarrow> False | Inr p \<Rightarrow> \<not> isl (load_request env p))"


subsection \<open>Start-up and sample inputs\<close>

text \<open>
  \<^verbatim>\<open>_load_state\<close> without a state file, and \<^verbatim>\<open>_initialize_source_files\<close>
  once the list of files to process is known (lines 167 to 170).
\<close>

definition default_state :: state where
  "default_state = \<lparr>last_file_submitted_index = - 1, active_batches = [],
     source_files = [], all_files_submitted = False\<rparr>"

definition initialize_source_files :: "string list \<Rightarrow> manager \<Rightarrow> manager" where
  "initialize_source_files files_to_process m =
     save_state (m\<lparr>state := (state m)\<lparr>source_files := files_to_process,
                                       last_file_submitted_index := - 1,
                                       all_files_submitted := False\<rparr>\<rparr>)"

definition demo_read :: "string \<Rightarrow> error + string" where
  "demo_read p = (if p = ''in/b.txt'' then Inl FileError else Inr ''<line 1> x'')"

definition demo_encode :: "string \<Rightarrow> error + nat" where
  "demo_encode c = Inr (length c)"

definition demo_status :: "string \<Rightarrow> error + string" where
  "demo_status b = (if b = ''batch_1'' then Inr ''in_progress''
                    else if b = ''batch_2'' then Inr ''completed''
                    else Inl ServiceError)"

definition demo_create :: "file_data list \<Rightarrow> error + (string \<times> string \<times> string)" where
  "demo_create fs = Inr (''batch:'' @ concat (map filename fs), ''validating'', ''file_9'')"

definition demo_reject :: "file_data list \<Rightarrow> error + (string \<times> string \<times> string)" where
  "demo_reject fs = Inl ServiceError"

definition demo_env :: itemizer_env where
  "demo_env = \<lparr>system_prompt_tokens = 2, read_prefixed = demo_read, encode_len = demo_encode,
     retrieve_status = demo_status, create_batch = demo_create, clock = 0\<rparr>"

definition demo_env_down :: itemizer_env where
  "demo_env_down = demo_env\<lparr>create_batch := demo_reject\<rparr>"

definition demo_manager :: "string list \<Rightarrow> manager" where
  "demo_manager files = initialize_source_files files \<lparr>state = default_state, state_file = None\<rparr>"


text \<open>A manager that tracks three batches.\<close>

definition demo_tracking :: manager where
  "demo_tracking =
     \<lparr>state = \<lparr>last_file_submitted_index = 5,
        active_batches =
          [(''batch_1'', \<lparr>status = ''validating'', submitted_at = 1, input_file_id = ''file_1'',
                          total_tokens = Some 100, file_count = 3\<rparr>),
           (''batch_2'', \<lparr>status = ''in_progress'', submitted_at = 2, input_file_id = ''file_2'',
                          total_tokens = Some 50, file_count = 2\<rparr>),
           (''batch_3'', \<lparr>status = ''in_progress'', submitted_at = 3, input_file_id = ''file_3'',
                          total_tokens = Some 7, file_count = 1\<rparr>)],
        source_files = [], all_files_submitted = False\<rparr>,
      state_file = None\<rparr>"

section \<open>The retrieval script (retrieve\_batches.py)\<close>

text \<open>
  The model output of one file, \<^verbatim>\<open>json.loads(content_str)\<close>, is kept opaque: a
  parsed JSON value stands as its text.
\<close>

type_synonym json = string

text \<open>What \<^verbatim>\<open>client.batches.retrieve\<close> returns, as far as the script reads it.\<close>

record batch_obj =
  obj_id :: string
  obj_status :: string
  output_file_id :: "string option"

text \<open>
  What the body of the loop over the result lines (lines 126 to 143) does with one line:
  it stores a payload under a \<^verbatim>\<open>custom_id\<close>; or it drops the line, as malformed
  (line 133) or on one of the three exceptions caught at line 142; or another exception
  leaves the loop and is caught at line 147.
\<close>

datatype line_outcome = Stored string json | Dropped | Aborted

text \<open>
  The outside world of the retrieval script: \<open>batches_retrieve\<close> is
  \<^verbatim>\<open>client.batches.retrieve\<close>; \<open>result_lines\<close> is the download of an output file,
  \<^verbatim>\<open>client.files.content(id).text.strip().split('\n')\<close>; \<open>read_result_line\<close> is the
  parsing of one line; \<open>timestamp\<close> is the formatted time of line 184.
\<close>

record retrieval_env =
  batches_retrieve :: "string \<Rightarrow> error + batch_obj"
  result_lines :: "string \<Rightarrow> error + string list"
  read_result_line :: "string \<Rightarrow> line_outcome"
  timestamp :: string

text \<open>The calls made to the batch service, in order.\<close>

datatype api_call = Retrieve string | Download string

text \<open>
  The merged output file. The script tests whether the key \<^verbatim>\<open>results\<close> is there,
  so the field is optional; the two other keys are written on every merge. The count
  \<^verbatim>\<open>len(final_results['results'])\<close> is the length of the association list, its keys
  being distinct.
\<close>

record merged_output =
  results :: "(string, json) dict option"
  last_updated_timestamp :: "string option"
  total_files_processed :: "nat option"

text \<open>
  A \<^verbatim>\<open>BatchResultManager\<close> with the three files it works on: the set in memory,
  the submission state file (read only), the processed-batches file and the merged
  output file. A file is absent (\<open>None\<close>), unreadable, or holds a document.
\<close>

record retriever =
  processed_batch_ids :: "string set"
  submission_state_file :: "(error + state) option"
  processed_batches_file :: "(error + string set) option"
  merged_output_file :: "(error + merged_output) option"

text \<open>\<^verbatim>\<open>_load_state\<close>, \<^verbatim>\<open>_save_state\<close> and the constructor of the retrieval script.\<close>

definition load_processed_state :: "retriever \<Rightarrow> string set" where
  "load_processed_state r =
    (case processed_batches_file r of
       None \<Rightarrow> {}
     | Some (Inl e) \<Rightarrow> {}
     | Some (Inr ids) \<Rightarrow> ids)"

definition save_processed_state :: "retriever \<Rightarrow> retriever" where
  "save_processed_state r = r\<lparr>processed_batches_file := Some (Inr (processed_batch_ids r))\<rparr>"

definition start_retriever :: "retriever \<Rightarrow> retriever" where
  "start_retriever r = r\<lparr>processed_batch_ids := load_processed_state r\<rparr>"

text \<open>\<^verbatim>\<open>d.update(other)\<close> on dicts: the items of \<open>other\<close> are assigned in order.\<close>

definition dict_update :: "('k, 'v) dict \<Rightarrow> ('k, 'v) dict \<Rightarrow> ('k, 'v) dict" where
  "dict_update d other = fold (\<lambda>(k, v). AList.update k v) other d"

subsection \<open>get\_new\_completed\_batches\<close>

text \<open>Lines 65 to 77: the keys of \<^verbatim>\<open>active_batches\<close> in the submission state file.\<close>

definition batch_ids_to_check :: "retriever \<Rightarrow> string list" where
  "batch_ids_to_check r =
    (case submission_state_file r of
       None \<Rightarrow> []
     | Some (Inl e) \<Rightarrow> []
     | Some (Inr submission_state) \<Rightarrow> map fst (active_batches submission_state))"

text \<open>The loop of lines 87 to 101, with the calls it makes.\<close>

fun completed_loop ::
  "retrieval_env \<Rightarrow> string set \<Rightarrow> string list \<Rightarrow> batch_obj list \<times> api_call list" where
  "completed_loop env processed [] = ([], [])"
| "completed_loop env processed (batch_id # ids) =
    (if batch_id \<in> processed then completed_loop env processed ids
     else
       (case completed_loop env processed ids of
          (completed_batches, calls) \<Rightarrow>
            (case batches_retrieve env batch_id of
               Inl e \<Rightarrow> (completed_batches, Retrieve batch_id # calls)
             | Inr batch \<Rightarrow>
                 if obj_status batch = ''completed''
                 then (batch # completed_batches, Retrieve batch_id # calls)
                 else (completed_batches, Retrieve batch_id # calls))))"

definition get_new_completed_batches ::
  "retrieval_env \<Rightarrow> retriever \<Rightarrow> batch_obj list \<times> api_call list" where
  "get_new_completed_batches env r =
     completed_loop env (processed_batch_ids r) (batch_ids_to_check r)"

subsection \<open>process\_batch\_result\<close>

text \<open>The loop of lines 125 to 143; \<open>None\<close> when an exception left it.\<close>

fun parse_lines ::
  "retrieval_env \<Rightarrow> string list \<Rightarrow> (string, json) dict \<Rightarrow> (string, json) dict option" where
  "parse_lines env [] res = Some res"
| "parse_lines env (line # rest) res =
    (case read_result_line env line of
       Stored custom_id final_data \<Rightarrow> parse_lines env rest (AList.update custom_id final_data res)
     | Dropped \<Rightarrow> parse_lines env rest res
     | Aborted \<Rightarrow> None)"

definition process_batch_result ::
  "retrieval_env \<Rightarrow> batch_obj \<Rightarrow> (string, json) dict \<times> api_call list" where
  "process_batch_result env batch =
    (case output_file_id batch of
       None \<Rightarrow> ([], [])
     | Some file_id \<Rightarrow>
         if file_id = [] then ([], [])
         else
           (case result_lines env file_id of
              Inl e \<Rightarrow> ([], [Download file_id])
            | Inr lines \<Rightarrow>
               (case parse_lines env lines [] of
                  None \<Rightarrow> ([], [Download file_id])
                | Some res \<Rightarrow> (res, [Download file_id]))))"

subsection \<open>run\<close>

text \<open>The loop of lines 161 to 166.\<close>

fun merge_loop ::
  "retrieval_env \<Rightarrow> batch_obj list \<Rightarrow> (string, json) dict \<Rightarrow> retriever
     \<Rightarrow> (string, json) dict \<times> retriever \<times> api_call list" where
  "merge_loop env [] all_new_results r = (all_new_results, r, [])"
| "merge_loop env (batch # rest) all_new_results r =
    (case process_batch_result env batch of
       (batch_results, calls) \<Rightarrow>
         (case merge_loop env rest (dict_update all_new_results batch_results)
                 (save_processed_state
                    (r\<lparr>processed_batch_ids := insert (obj_id batch) (processed_batch_ids r)\<rparr>)) of
            (all_new, r', calls') \<Rightarrow> (all_new, r', calls @ calls')))"

text \<open>
  How \<^verbatim>\<open>run\<close> ended: with nothing new to download (line 158), with nothing valid
  in what it downloaded (line 170), after writing the merged file, or on the uncaught
  exception of reading an unreadable merged file (line 177).
\<close>

datatype run_outcome = NoNewResults | NoValidData | Merged | Crashed error

text \<open>Lines 173 to 181: the \<^verbatim>\<open>results\<close> dict that a merge starts from.\<close>

definition stored_results :: "retriever \<Rightarrow> (string, json) dict" where
  "stored_results r =
    (case merged_output_file r of
       None \<Rightarrow> []
     | Some (Inl e) \<Rightarrow> []
     | Some (Inr final_results) \<Rightarrow>
         (case results final_results of None \<Rightarrow> [] | Some d \<Rightarrow> d))"

definition run :: "retrieval_env \<Rightarrow> retriever \<Rightarrow> retriever \<times> api_call list \<times> run_outcome" where
  "run env r =
    (case get_new_completed_batches env r of
       (new_batches, calls) \<Rightarrow>
         if new_batches = [] then (r, calls, NoNewResults)
         else
           (case merge_loop env new_batches [] r of
              (all_new_results, r1, calls') \<Rightarrow>
                if all_new_results = [] then (r1, calls @ calls', NoValidData)
                else
                  (case merged_output_file r1 of
                     Some (Inl e) \<Rightarrow> (r1, calls @ calls', Crashed e)
                   | _ \<Rightarrow>
                      (let merged = dict_update (stored_results r1) all_new_results
                       in (r1\<lparr>merged_output_file := Some (Inr
                                \<lparr>results = Some merged,
                                 last_updated_timestamp = Some (timestamp env),
                                 total_files_processed = Some (length merged)\<rparr>)\<rparr>,
                           calls @ calls', Merged)))))"

text \<open>One invocation of the script: construct the manager, then \<^verbatim>\<open>run\<close>.\<close>

definition main :: "retrieval_env \<Rightarrow> retriever \<Rightarrow> retriever \<times> api_call list \<times> run_outcome" where
  "main env r = run env (start_retriever r)"

subsection \<open>Sample inputs of the retrieval script\<close>

definition demo_retrieve :: "string \<Rightarrow> error + batch_obj" where
  "demo_retrieve b =
    (if b = ''batch_1'' then
       Inr \<lparr>obj_id = ''batch_1'', obj_status = ''completed'', output_file_id = Some ''out_1''\<rparr>
     else if b = ''batch_2'' then
       Inr \<lparr>obj_id = ''batch_2'', obj_status = ''completed'', output_file_id = Some ''out_2''\<rparr>
     else if b = ''batch_3'' then
       Inr \<lparr>obj_id = ''batch_3'', obj_status = ''in_progress'', output_file_id = None\<rparr>
     else Inl ServiceError)"

definition demo_lines :: "string \<Rightarrow> error + string list" where
  "demo_lines f =
    (if f = ''out_1'' then Inr [''a.txt=v1'', ''b.txt=v1'']
     else if f = ''out_2'' then Inr [''a.txt=v2'', ''garbled'']
     else Inl ServiceError)"

definition demo_lines_down :: "string \<Rightarrow> error + string list" where
  "demo_lines_down f = Inl ServiceError"

definition demo_read_line :: "string \<Rightarrow> line_outcome" where
  "demo_read_line l =
    (if l = ''a.txt=v1'' then Stored ''a.txt'' ''v1''
     else if l = ''b.txt=v1'' then Stored ''b.txt'' ''v1''
     else if l = ''a.txt=v2'' then Stored ''a.txt'' ''v2''
     else Dropped)"

definition demo_service :: retrieval_env where
  "demo_service = \<lparr>batches_retrieve = demo_retrieve, result_lines = demo_lines,
     read_result_line = demo_read_line, timestamp = ''2026-01-01 00:00:00 UTC''\<rparr>"

definition demo_service_down :: retrieval_env where
  "demo_service_down = demo_service\<lparr>result_lines := demo_lines_down\<rparr>"

text \<open>A retriever before its first run, reading the state that \<open>m\<close> last saved.\<close>

definition demo_retriever :: "manager \<Rightarrow> retriever" where
  "demo_retriever m =
     \<lparr>processed_batch_ids = {}, submission_state_file = map_option Inr (state_file m),
      processed_batches_file = None, merged_output_file = None\<rparr>"

section \<open>Properties of the submission script\<close>

lemma scan_files_capacity:
  assumes "scan_files env cap files idxs sc = Inr sc'"
    and "map (\<lambda>fd. request_tokens env (content fd)) (files_for_batch sc) = map Inr costs"
    and "batch_total_tokens sc = int (sum_list costs)"
    and "files_for_batch sc = [] \<or> batch_total_tokens sc \<le> cap"
  shows "\<exists>costs'. map (\<lambda>fd. request_tokens env (content fd)) (files_for_batch sc') = map Inr costs'
           \<and> batch_total_tokens sc' = int (sum_list costs')
           \<and> (files_for_batch sc' = [] \<or> batch_total_tokens sc' \<le> cap)"
  using assms
proof (induction idxs arbitrary: sc costs)
  case Nil
  then show ?case by auto
next
  case (Cons i rest)
  from Cons.prems(1) obtain p where p: "py_index files i = Inr p"
    by (cases "py_index files i") auto
  show ?case
  proof (cases "load_request env p")
    case (Inl e)
    with Cons.prems p have "scan_files env cap files rest
        (sc\<lparr>last_file_index_in_batch := i, events := events sc @ [Skipped i]\<rparr>) = Inr sc'"
      by simp
    from Cons.IH[OF this, of costs] Cons.prems show ?thesis by simp
  next
    case (Inr cn)
    obtain c n where cn: "cn = (c, n)" by (cases cn)
    have rt: "request_tokens env c = Inr n"
      using Inr cn by (auto simp: load_request_def split: sum.splits)
    show ?thesis
    proof (cases "batch_total_tokens sc + int n > cap \<or> int (length (files_for_batch sc)) \<ge> MAX_FILES_PER_BATCH")
      case True
      with Cons.prems p Inr cn have "sc' = sc\<lparr>events := events sc @ [Stopped i]\<rparr>" by auto
      with Cons.prems show ?thesis by auto
    next
      case False
      let ?sc = "sc\<lparr>files_for_batch := files_for_batch sc @ [\<lparr>filename = basename p, content = c\<rparr>],
                     batch_total_tokens := batch_total_tokens sc + int n,
                     last_file_index_in_batch := i,
                     events := events sc @ [Packed i]\<rparr>"
      from False Cons.prems p Inr cn have run: "scan_files env cap files rest ?sc = Inr sc'" by auto
      show ?thesis
        by (rule Cons.IH[OF run, of "costs @ [n]"]) (use Cons.prems rt False in auto)
    qed
  qed
qed

lemma scan_files_log:
  assumes "scan_files env cap files idxs sc = Inr sc'"
    and "sorted_wrt (<) idxs" and "\<forall>i\<in>set idxs. last_file_index_in_batch sc < i"
  shows "\<exists>evs. events sc' = events sc @ evs
           \<and> set (map event_index evs) \<subseteq> set idxs
           \<and> last_file_index_in_batch sc' =
               last (last_file_index_in_batch sc # List.map_filter consumed_index evs)
           \<and> (\<forall>e\<in>set evs. \<forall>i. consumed_index e = Some i \<longrightarrow> i \<le> last_file_index_in_batch sc')
           \<and> last_file_index_in_batch sc \<le> last_file_index_in_batch sc'"
  using assms
proof (induction idxs arbitrary: sc)
  case Nil
  then show ?case by (auto simp: List.map_filter_simps)
next
  case (Cons i rest)
  from Cons.prems(1) obtain p where p: "py_index files i = Inr p"
    by (cases "py_index files i") auto
  have rest: "sorted_wrt (<) rest" "\<forall>j\<in>set rest. i < j" using Cons.prems(2) by auto
  show ?case
  proof (cases "load_request env p")
    case (Inl e)
    let ?sc = "sc\<lparr>last_file_index_in_batch := i, events := events sc @ [Skipped i]\<rparr>"
    from Inl Cons.prems p have run: "scan_files env cap files rest ?sc = Inr sc'" by simp
    from Cons.IH[OF run rest(1)] rest(2) obtain evs where
      evs: "events sc' = events ?sc @ evs" "set (map event_index evs) \<subseteq> set rest"
      "last_file_index_in_batch sc' = last (last_file_index_in_batch ?sc # List.map_filter consumed_index evs)"
      "\<forall>e\<in>set evs. \<forall>j. consumed_index e = Some j \<longrightarrow> j \<le> last_file_index_in_batch sc'"
      "last_file_index_in_batch ?sc \<le> last_file_index_in_batch sc'" by auto
    show ?thesis
      apply (rule exI[of _ "Skipped i # evs"])
      using evs Cons.prems(3) by (auto simp: List.map_filter_simps)
  next
    case (Inr cn)
    obtain c n where cn: "cn = (c, n)" by (cases cn)
    show ?thesis
    proof (cases "batch_total_tokens sc + int n > cap \<or> int (length (files_for_batch sc)) \<ge> MAX_FILES_PER_BATCH")
      case True
      with Cons.prems p Inr cn have "sc' = sc\<lparr>events := events sc @ [Stopped i]\<rparr>" by auto
      then show ?thesis
        by (intro exI[of _ "[Stopped i]"]) (auto simp: List.map_filter_simps)
    next
      case False
      let ?sc = "sc\<lparr>files_for_batch := files_for_batch sc @ [\<lparr>filename = basename p, content = c\<rparr>],
                     batch_total_tokens := batch_total_tokens sc + int n,
                     last_file_index_in_batch := i,
                     events := events sc @ [Packed i]\<rparr>"
      from False Cons.prems p Inr cn have run: "scan_files env cap files rest ?sc = Inr sc'" by auto
      from Cons.IH[OF run rest(1)] rest(2) obtain evs where
        evs: "events sc' = events ?sc @ evs" "set (map event_index evs) \<subseteq> set rest"
        "last_file_index_in_batch sc' = last (last_file_index_in_batch ?sc # List.map_filter consumed_index evs)"
        "\<forall>e\<in>set evs. \<forall>j. consumed_index e = Some j \<longrightarrow> j \<le> last_file_index_in_batch sc'"
        "last_file_index_in_batch ?sc \<le> last_file_index_in_batch sc'" by auto
      show ?thesis
        apply (rule exI[of _ "Packed i # evs"])
        using evs Cons.prems(3) by (auto simp: List.map_filter_simps)
    qed
  qed
qed


lemma scan_files_sound:
  assumes "scan_files env cap files idxs sc = Inr sc'"
    and "list_all (event_sound env files) (events sc)"
  shows "list_all (event_sound env files) (events sc')"
  using assms
proof (induction idxs arbitrary: sc)
  case Nil
  then show ?case by auto
next
  case (Cons i rest)
  from Cons.prems(1) obtain p where p: "py_index files i = Inr p"
    by (cases "py_index files i") auto
  show ?case
  proof (cases "load_request env p")
    case (Inl e)
    with Cons.prems p show ?thesis
      by (intro Cons.IH[of "sc\<lparr>last_file_index_in_batch := i, events := events sc @ [Skipped i]\<rparr>"]) auto
  next
    case (Inr cn)
    obtain c n where cn: "cn = (c, n)" by (cases cn)
    show ?thesis
    proof (cases "batch_total_tokens sc + int n > cap \<or> int (length (files_for_batch sc)) \<ge> MAX_FILES_PER_BATCH")
      case True
      with Cons.prems p Inr cn have "sc' = sc\<lparr>events := events sc @ [Stopped i]\<rparr>" by auto
      with Cons.prems p Inr show ?thesis by auto
    next
      case False
      let ?sc = "sc\<lparr>files_for_batch := files_for_batch sc @ [\<lparr>filename = basename p, content = c\<rparr>],
                     batch_total_tokens := batch_total_tokens sc + int n,
                     last_file_index_in_batch := i,
                     events := events sc @ [Packed i]\<rparr>"
      from False Cons.prems p Inr cn have run: "scan_files env cap files rest ?sc = Inr sc'" by auto
      show ?thesis
        by (rule Cons.IH[OF run]) (use Cons.prems p Inr in auto)
    qed
  qed
qed

lemma scan_files_batch:
  assumes "scan_files env cap files idxs sc = Inr sc'"
  shows "\<exists>evs. events sc' = events sc @ evs
           \<and> files_for_batch sc' = files_for_batch sc @ concat (map (packed_file env files) evs)"
  using assms
proof (induction idxs arbitrary: sc)
  case Nil
  then show ?case by auto
next
  case (Cons i rest)
  from Cons.prems(1) obtain p where p: "py_index files i = Inr p"
    by (cases "py_index files i") auto
  show ?case
  proof (cases "load_request env p")
    case (Inl e)
    let ?sc = "sc\<lparr>last_file_index_in_batch := i, events := events sc @ [Skipped i]\<rparr>"
    from Inl Cons.prems p have run: "scan_files env cap files rest ?sc = Inr sc'" by simp
    from Cons.IH[OF run] obtain evs where
      "events sc' = events ?sc @ evs"
      "files_for_batch sc' = files_for_batch ?sc @ concat (map (packed_file env files) evs)"
      by blast
    then show ?thesis
      by (intro exI[of _ "Skipped i # evs"]) simp
  next
    case (Inr cn)
    obtain c n where cn: "cn = (c, n)" by (cases cn)
    show ?thesis
    proof (cases "batch_total_tokens sc + int n > cap \<or> int (length (files_for_batch sc)) \<ge> MAX_FILES_PER_BATCH")
      case True
      with Cons.prems p Inr cn have "sc' = sc\<lparr>events := events sc @ [Stopped i]\<rparr>" by auto
      then show ?thesis
        by (intro exI[of _ "[Stopped i]"]) simp
    next
      case False
      let ?sc = "sc\<lparr>files_for_batch := files_for_batch sc @ [\<lparr>filename = basename p, content = c\<rparr>],
                     batch_total_tokens := batch_total_tokens sc + int n,
                     last_file_index_in_batch := i,
                     events := events sc @ [Packed i]\<rparr>"
      from False Cons.prems p Inr cn have run: "scan_files env cap files rest ?sc = Inr sc'" by auto
      from Cons.IH[OF run] obtain evs where
        "events sc' = events ?sc @ evs"
        "files_for_batch sc' = files_for_batch ?sc @ concat (map (packed_file env files) evs)"
        by blast
      then show ?thesis
        by (intro exI[of _ "Packed i # evs"]) (simp add: p Inr cn)
    qed
  qed
qed

lemma scan_files_total:
  assumes "\<forall>i\<in>set idxs. 0 \<le> i \<and> i < int (length files)"
  shows "\<exists>sc'. scan_files env cap files idxs sc = Inr sc'"
  using assms
proof (induction idxs arbitrary: sc)
  case Nil
  then show ?case by simp
next
  case (Cons i rest)
  then have p: "py_index files i = Inr (files ! nat i)" by (simp add: py_index_def)
  show ?case
  proof (cases "load_request env (files ! nat i)")
    case (Inl e)
    with p Cons show ?thesis by simp
  next
    case (Inr cn)
    then show ?thesis using p Cons by (cases cn) simp
  qed
qed

lemma submit_new_batch_done:
  assumes "submit_new_batch env cap m = Inr (m', rep)" and "all_files_submitted (state m)"
  shows "m' = m" and "rep = \<lparr>built = [], scan_log = [], accepted = False\<rparr>"
  using assms by (auto simp: submit_new_batch_def)

lemma submit_new_batch_scan:
  assumes "submit_new_batch env cap m = Inr (m', rep)" and "\<not> all_files_submitted (state m)"
  obtains sc where
    "scan_files env cap (source_files (state m))
       [last_file_submitted_index (state m) + 1 .. int (length (source_files (state m))) - 1]
       \<lparr>files_for_batch = [], batch_total_tokens = 0,
        last_file_index_in_batch = last_file_submitted_index (state m),
        exhausted = False, events = []\<rparr> = Inr sc"
    and "last_file_submitted_index (state m') = last_file_index_in_batch sc"
    and "source_files (state m') = source_files (state m)"
    and "built rep = files_for_batch sc"
    and "scan_log rep = events sc"
    and "all_files_submitted (state m') = exhausted sc"
  using assms
  by (auto simp: submit_new_batch_def Let_def save_state_def
      split: sum.splits if_splits prod.splits)

lemma submit_new_batch_cursor:
  assumes "submit_new_batch env cap m = Inr (m', rep)"
  shows "last_file_submitted_index (state m') =
           last (last_file_submitted_index (state m) # List.map_filter consumed_index (scan_log rep))"
    and "last_file_submitted_index (state m) \<le> last_file_submitted_index (state m')"
    and "\<forall>e\<in>set (scan_log rep). last_file_submitted_index (state m) < event_index e"
    and "\<forall>e\<in>set (scan_log rep). \<forall>i. consumed_index e = Some i
            \<longrightarrow> i \<le> last_file_submitted_index (state m')"
    and "source_files (state m') = source_files (state m)"
proof -
  let ?c = "last_file_submitted_index (state m)"
  let ?G = "last_file_submitted_index (state m') = last (?c # List.map_filter consumed_index (scan_log rep))
    \<and> ?c \<le> last_file_submitted_index (state m')
    \<and> (\<forall>e\<in>set (scan_log rep). ?c < event_index e)
    \<and> (\<forall>e\<in>set (scan_log rep). \<forall>i. consumed_index e = Some i \<longrightarrow> i \<le> last_file_submitted_index (state m'))
    \<and> source_files (state m') = source_files (state m)"
  have ?G
  proof (cases "all_files_submitted (state m)")
    case True
    from submit_new_batch_done[OF assms True] show ?thesis
      by (simp add: List.map_filter_simps)
  next
    case False
    from submit_new_batch_scan[OF assms False] obtain sc where
      sc: "scan_files env cap (source_files (state m))
         [?c + 1 .. int (length (source_files (state m))) - 1]
         \<lparr>files_for_batch = [], batch_total_tokens = 0,
          last_file_index_in_batch = ?c, exhausted = False, events = []\<rparr> = Inr sc"
      and eqs: "last_file_submitted_index (state m') = last_file_index_in_batch sc"
        "source_files (state m') = source_files (state m)"
        "scan_log rep = events sc" by metis
    have "sorted_wrt (<) [?c + 1 .. int (length (source_files (state m))) - 1]"
      by (simp add: strict_sorted_iff)
    from scan_files_log[OF sc this] obtain evs where
      "events sc = evs"
      "set (map event_index evs) \<subseteq> set [?c + 1 .. int (length (source_files (state m))) - 1]"
      "last_file_index_in_batch sc = last (?c # List.map_filter consumed_index evs)"
      "\<forall>e\<in>set evs. \<forall>i. consumed_index e = Some i \<longrightarrow> i \<le> last_file_index_in_batch sc"
      "?c \<le> last_file_index_in_batch sc"
      by auto
    with eqs show ?thesis by auto
  qed
  then show "last_file_submitted_index (state m') =
           last (last_file_submitted_index (state m) # List.map_filter consumed_index (scan_log rep))"
    and "last_file_submitted_index (state m) \<le> last_file_submitted_index (state m')"
    and "\<forall>e\<in>set (scan_log rep). last_file_submitted_index (state m) < event_index e"
    and "\<forall>e\<in>set (scan_log rep). \<forall>i. consumed_index e = Some i
            \<longrightarrow> i \<le> last_file_submitted_index (state m')"
    and "source_files (state m') = source_files (state m)"
    by blast+
qed

lemma submit_new_batch_built:
  assumes "submit_new_batch env cap m = Inr (m', rep)"
  shows "built rep = concat (map (packed_file env (source_files (state m))) (scan_log rep))"
    and "list_all (event_sound env (source_files (state m))) (scan_log rep)"
proof -
  have "built rep = concat (map (packed_file env (source_files (state m))) (scan_log rep))
      \<and> list_all (event_sound env (source_files (state m))) (scan_log rep)"
  proof (cases "all_files_submitted (state m)")
    case True
    from submit_new_batch_done[OF assms True] show ?thesis by simp
  next
    case False
    from submit_new_batch_scan[OF assms False] obtain sc where
      sc: "scan_files env cap (source_files (state m))
         [last_file_submitted_index (state m) + 1 .. int (length (source_files (state m))) - 1]
         \<lparr>files_for_batch = [], batch_total_tokens = 0,
          last_file_index_in_batch = last_file_submitted_index (state m), exhausted = False, events = []\<rparr> = Inr sc"
      and eqs: "built rep = files_for_batch sc" "scan_log rep = events sc" by metis
    from scan_files_batch[OF sc] scan_files_sound[OF sc] eqs show ?thesis by auto
  qed
  then show "built rep = concat (map (packed_file env (source_files (state m))) (scan_log rep))"
    and "list_all (event_sound env (source_files (state m))) (scan_log rep)" by blast+
qed

lemma submit_new_batch_returns:
  assumes "- 1 \<le> last_file_submitted_index (state m)"
  shows "\<exists>m' rep. submit_new_batch env cap m = Inr (m', rep)"
proof -
  let ?init = "\<lparr>files_for_batch = [], batch_total_tokens = 0,
          last_file_index_in_batch = last_file_submitted_index (state m), exhausted = False, events = []\<rparr>"
  have "\<forall>i\<in>set [last_file_submitted_index (state m) + 1 .. int (length (source_files (state m))) - 1].
          0 \<le> i \<and> i < int (length (source_files (state m)))"
    using assms by auto
  from scan_files_total[OF this, of env cap ?init] obtain sc where
    "scan_files env cap (source_files (state m))
       [last_file_submitted_index (state m) + 1 .. int (length (source_files (state m))) - 1] ?init = Inr sc"
    by blast
  then show ?thesis
    by (auto simp: submit_new_batch_def Let_def split: sum.splits prod.splits)
qed

lemmas demo_defs = demo_manager_def initialize_source_files_def default_state_def save_state_def
  demo_env_def demo_env_down_def demo_read_def demo_encode_def demo_create_def demo_reject_def
  submit_new_batch_def load_request_def request_tokens_def py_index_def basename_def
  MAX_FILES_PER_BATCH_def upto.simps Let_def



text \<open>
  Claim C1 (capacity respect). Whenever \<^verbatim>\<open>submit_new_batch\<close> returns, every item
  of the batch it built has a cost, the system prompt's tokens plus the tokens of its
  content, and these costs add up to at most the available capacity passed in. This
  holds for every batch that holds an item, and for the empty batch as soon as the
  capacity is not negative (the main loop calls the function only when the capacity
  is positive).
\<close>

theorem batch_within_capacity:
  assumes "submit_new_batch env available_token_capacity m = Inr (m', rep)"
    and "0 \<le> available_token_capacity \<or> built rep \<noteq> []"
  shows "\<exists>costs. map (\<lambda>fd. request_tokens env (content fd)) (built rep) = map Inr costs
           \<and> int (sum_list costs) \<le> available_token_capacity"
proof (cases "all_files_submitted (state m)")
  case True
  from submit_new_batch_done[OF assms(1) True] assms(2) show ?thesis by simp
next
  case False
  from submit_new_batch_scan[OF assms(1) False] obtain sc where
    sc: "scan_files env available_token_capacity (source_files (state m))
       [last_file_submitted_index (state m) + 1 .. int (length (source_files (state m))) - 1]
       \<lparr>files_for_batch = [], batch_total_tokens = 0,
        last_file_index_in_batch = last_file_submitted_index (state m),
        exhausted = False, events = []\<rparr> = Inr sc"
    and b: "built rep = files_for_batch sc" by metis
  from scan_files_capacity[OF sc, of "[]"] obtain costs where
    c: "map (\<lambda>fd. request_tokens env (content fd)) (files_for_batch sc) = map Inr costs"
      "batch_total_tokens sc = int (sum_list costs)"
      "files_for_batch sc = [] \<or> batch_total_tokens sc \<le> available_token_capacity"
    by auto
  show ?thesis
  proof (cases "files_for_batch sc = []")
    case True
    with c(1) have "costs = []" by simp
    with True b assms(2) show ?thesis by simp
  next
    case False
    with c b show ?thesis by auto
  qed
qed

theorem batch_within_capacity_witness:
  "(0::int) \<le> 30
   \<and> (\<exists>m' rep. submit_new_batch demo_env 30 (demo_manager [''in/a.txt'', ''in/b.txt'', ''in/c.txt''])
          = Inr (m', rep)
        \<and> length (built rep) = 2
        \<and> (\<exists>costs. map (\<lambda>fd. request_tokens demo_env (content fd)) (built rep) = map Inr costs
              \<and> int (sum_list costs) \<le> 30))"
proof -
  obtain m' rep where
    e: "submit_new_batch demo_env 30 (demo_manager [''in/a.txt'', ''in/b.txt'', ''in/c.txt''])
          = Inr (m', rep)" and l: "length (built rep) = 2"
    by (simp add: demo_defs)
  from batch_within_capacity[OF e] e l show ?thesis by simp
qed

lemma submit_sequence_later:
  assumes "submit_sequence calls m = Inr outs"
  shows "\<forall>(m', rep)\<in>set outs.
           last_file_submitted_index (state m) \<le> last_file_submitted_index (state m')
           \<and> (\<forall>e\<in>set (scan_log rep). last_file_submitted_index (state m) < event_index e)"
  using assms
proof (induction calls arbitrary: m outs)
  case Nil
  then show ?case by simp
next
  case (Cons call calls)
  obtain env cap where call: "call = (env, cap)" by (cases call)
  from Cons.prems call obtain m1 rep1 outs1 where
    step: "submit_new_batch env cap m = Inr (m1, rep1)"
    and rest: "submit_sequence calls m1 = Inr outs1"
    and outs: "outs = (m1, rep1) # outs1"
    by (auto split: sum.splits)
  note c = submit_new_batch_cursor(2,3)[OF step]
  from Cons.IH[OF rest] c(1) have
    "\<forall>(m', rep)\<in>set outs1.
           last_file_submitted_index (state m) \<le> last_file_submitted_index (state m')
           \<and> (\<forall>e\<in>set (scan_log rep). last_file_submitted_index (state m) < event_index e)"
    by fastforce
  with c outs show ?case by simp
qed

lemma submit_sequence_sorted:
  assumes "submit_sequence calls m = Inr outs"
  shows "sorted (last_file_submitted_index (state m)
                   # map (\<lambda>out. last_file_submitted_index (state (fst out))) outs)"
  using assms
proof (induction calls arbitrary: m outs)
  case Nil
  then show ?case by simp
next
  case (Cons call calls)
  obtain env cap where call: "call = (env, cap)" by (cases call)
  from Cons.prems call obtain m1 rep1 outs1 where
    step: "submit_new_batch env cap m = Inr (m1, rep1)"
    and rest: "submit_sequence calls m1 = Inr outs1"
    and outs: "outs = (m1, rep1) # outs1"
    by (auto split: sum.splits)
  from submit_sequence_later[OF Cons.prems] Cons.IH[OF rest] outs
  show ?case by (auto simp: case_prod_beta)
qed

lemma submit_sequence_suffix:
  assumes "submit_sequence calls m = Inr (pre @ (m1, rep1) # post)"
  shows "submit_sequence (drop (Suc (length pre)) calls) m1 = Inr post"
  using assms
proof (induction calls arbitrary: m pre)
  case Nil
  then show ?case by simp
next
  case (Cons call calls)
  obtain env cap where call: "call = (env, cap)" by (cases call)
  from Cons.prems call obtain m2 rep2 outs2 where
    step: "submit_new_batch env cap m = Inr (m2, rep2)"
    and rest: "submit_sequence calls m2 = Inr outs2"
    and outs: "pre @ (m1, rep1) # post = (m2, rep2) # outs2"
    by (auto split: sum.splits)
  show ?case
  proof (cases pre)
    case Nil
    with outs rest show ?thesis by simp
  next
    case (Cons a pre')
    with outs have "outs2 = pre' @ (m1, rep1) # post" by simp
    with rest Cons.IH[of m2 pre'] Cons show ?thesis by simp
  qed
qed

text \<open>
  Claim C2 (cursor monotonicity). Along any sequence of calls of
  \<^verbatim>\<open>submit_new_batch\<close> that return, the cursors \<^verbatim>\<open>last_file_submitted_index\<close>
  are non-decreasing, starting from the cursor of the first call; and after a call has
  returned cursor \<open>c\<close>, every later call returns a cursor of at least \<open>c\<close> and looks
  only at indices above \<open>c\<close>, whether the files below were packed or failed to read.
\<close>

theorem cursor_never_goes_back:
  assumes "submit_sequence calls m = Inr outs"
  shows "sorted (last_file_submitted_index (state m)
                   # map (\<lambda>out. last_file_submitted_index (state (fst out))) outs)
    \<and> (\<forall>(m', rep)\<in>set outs.
           last_file_submitted_index (state m) \<le> last_file_submitted_index (state m')
           \<and> (\<forall>e\<in>set (scan_log rep). last_file_submitted_index (state m) < event_index e))
    \<and> (\<forall>pre m1 rep1 post. outs = pre @ (m1, rep1) # post \<longrightarrow>
          (\<forall>(m2, rep2)\<in>set post.
             last_file_submitted_index (state m1) \<le> last_file_submitted_index (state m2)
             \<and> (\<forall>e\<in>set (scan_log rep2). last_file_submitted_index (state m1) < event_index e)))"
proof (intro conjI allI impI)
  show "sorted (last_file_submitted_index (state m)
                   # map (\<lambda>out. last_file_submitted_index (state (fst out))) outs)"
    by (rule submit_sequence_sorted[OF assms])
  show "\<forall>(m', rep)\<in>set outs.
           last_file_submitted_index (state m) \<le> last_file_submitted_index (state m')
           \<and> (\<forall>e\<in>set (scan_log rep). last_file_submitted_index (state m) < event_index e)"
    by (rule submit_sequence_later[OF assms])
next
  fix pre m1 rep1 post
  assume "outs = pre @ (m1, rep1) # post"
  with assms have "submit_sequence (drop (Suc (length pre)) calls) m1 = Inr post"
    using submit_sequence_suffix by blast
  then show "\<forall>(m2, rep2)\<in>set post.
             last_file_submitted_index (state m1) \<le> last_file_submitted_index (state m2)
             \<and> (\<forall>e\<in>set (scan_log rep2). last_file_submitted_index (state m1) < event_index e)"
    by (rule submit_sequence_later)
qed

theorem cursor_never_goes_back_witness:
  "\<exists>outs. submit_sequence [(demo_env, 20), (demo_env, 30)]
             (demo_manager [''in/a.txt'', ''in/b.txt'', ''in/c.txt'']) = Inr outs
     \<and> map (\<lambda>out. last_file_submitted_index (state (fst out))) outs = [1, 2]
     \<and> map (\<lambda>out. scan_log (snd out)) outs
          = [[Packed 0, Skipped 1, Stopped 2], [Packed 2]]
     \<and> sorted (last_file_submitted_index
                  (state (demo_manager [''in/a.txt'', ''in/b.txt'', ''in/c.txt'']))
                # map (\<lambda>out. last_file_submitted_index (state (fst out))) outs)"
proof -
  obtain outs where
    e: "submit_sequence [(demo_env, 20), (demo_env, 30)]
             (demo_manager [''in/a.txt'', ''in/b.txt'', ''in/c.txt'']) = Inr outs"
    and v: "map (\<lambda>out. last_file_submitted_index (state (fst out))) outs = [1, 2]"
      "map (\<lambda>out. scan_log (snd out)) outs = [[Packed 0, Skipped 1, Stopped 2], [Packed 2]]"
    by (simp add: demo_defs)
  have "sorted (last_file_submitted_index
                  (state (demo_manager [''in/a.txt'', ''in/b.txt'', ''in/c.txt'']))
                # map (\<lambda>out. last_file_submitted_index (state (fst out))) outs)"
    using cursor_never_goes_back[OF e] by (rule conjunct1)
  with e v show ?thesis by (intro exI[of _ outs] conjI)
qed

lemma packed_file_sound:
  assumes "event_sound env files (Packed i)"
  shows "packed_file env files (Packed i) \<noteq> []"
  using assms by (auto split: sum.splits)

lemma packed_file_only_packed:
  assumes "packed_file env files e \<noteq> []"
  shows "\<exists>i. e = Packed i"
  using assms by (cases e) auto

lemma built_empty_no_packed:
  assumes "submit_new_batch env cap m = Inr (m', rep)" and "built rep = []"
  shows "Packed i \<notin> set (scan_log rep)"
proof
  assume p: "Packed i \<in> set (scan_log rep)"
  from submit_new_batch_built[OF assms(1)] p
  have "event_sound env (source_files (state m)) (Packed i)"
    and b: "built rep = concat (map (packed_file env (source_files (state m))) (scan_log rep))"
    by (auto simp: list_all_iff)
  from packed_file_sound[OF this(1)] p b assms(2) show False by auto
qed

lemma built_nonempty_packed:
  assumes "submit_new_batch env cap m = Inr (m', rep)" and "built rep \<noteq> []"
  shows "\<exists>i. Packed i \<in> set (scan_log rep)"
proof -
  from submit_new_batch_built(1)[OF assms(1)] assms(2)
  obtain e where "e \<in> set (scan_log rep)" "packed_file env (source_files (state m)) e \<noteq> []"
    by auto
  with packed_file_only_packed show ?thesis by blast
qed

lemma map_filter_none:
  assumes "\<forall>e\<in>set xs. f e = None"
  shows "List.map_filter f xs = []"
  using assms by (induction xs) (auto simp: List.map_filter_simps)

lemma submit_new_batch_saved:
  assumes "submit_new_batch env cap m = Inr (m', rep)"
  shows "state_file m' =
     (if all_files_submitted (state m) \<or> (built rep \<noteq> [] \<and> \<not> accepted rep) then state_file m
      else Some (state m'))"
  using assms
  by (auto simp: submit_new_batch_def Let_def save_state_def
      split: sum.splits if_splits prod.splits)

lemma submit_new_batch_rejected:
  assumes "submit_new_batch env cap m = Inr (m', rep)"
    and "built rep \<noteq> []" and "\<not> accepted rep"
  shows "active_batches (state m') = active_batches (state m)"
  using assms
  by (auto simp: submit_new_batch_def Let_def save_state_def
      split: sum.splits if_splits prod.splits)

text \<open>
  Claim C4 as stated fails: a call that builds an empty batch still commits the cursor
  advance of the files it skipped on the way. Here the first file is unreadable and the
  second does not fit in a capacity of 5: the batch is empty and the cursor goes from
  \<open>-1\<close> to \<open>0\<close>.
\<close>

theorem empty_build_moves_cursor:
  "submit_new_batch demo_env 5 (demo_manager [''in/b.txt'', ''in/a.txt''])
     = Inr (\<lparr>state = \<lparr>last_file_submitted_index = 0, active_batches = [],
                       source_files = [''in/b.txt'', ''in/a.txt''],
                       all_files_submitted = False\<rparr>,
             state_file = Some \<lparr>last_file_submitted_index = 0, active_batches = [],
                       source_files = [''in/b.txt'', ''in/a.txt''],
                       all_files_submitted = False\<rparr>\<rparr>,
            \<lparr>built = [], scan_log = [Skipped 0, Stopped 1], accepted = False\<rparr>)
   \<and> last_file_submitted_index (state (demo_manager [''in/b.txt'', ''in/a.txt''])) = - 1"
  by (simp add: demo_defs)

text \<open>
  Claim C4, amended. A call of \<^verbatim>\<open>submit_new_batch\<close> that returns an empty batch
  and skipped no unreadable file on the way commits the cursor it started from; the
  state it saves (it saves unless all files were already submitted) holds that cursor.
\<close>

theorem empty_build_keeps_cursor:
  assumes "submit_new_batch env available_token_capacity m = Inr (m', rep)"
    and "built rep = []"
    and "\<forall>i. Skipped i \<notin> set (scan_log rep)"
  shows "last_file_submitted_index (state m') = last_file_submitted_index (state m)
    \<and> state_file m' = (if all_files_submitted (state m) then state_file m else Some (state m'))"
proof -
  have "consumed_index e = None" if e: "e \<in> set (scan_log rep)" for e
  proof (cases e)
    case (Packed i)
    with e built_empty_no_packed[OF assms(1,2), of i] show ?thesis by simp
  next
    case (Skipped i)
    with e assms(3) show ?thesis by simp
  next
    case (Stopped i)
    then show ?thesis by simp
  qed
  then have "List.map_filter consumed_index (scan_log rep) = []"
    by (intro map_filter_none) blast
  with submit_new_batch_cursor(1)[OF assms(1)] submit_new_batch_saved[OF assms(1)] assms(2)
  show ?thesis by simp
qed

theorem empty_build_keeps_cursor_witness:
  "\<exists>m' rep. submit_new_batch demo_env 5 (demo_manager [''in/a.txt'', ''in/c.txt'']) = Inr (m', rep)
     \<and> built rep = [] \<and> scan_log rep = [Stopped 0]
     \<and> last_file_submitted_index (state m') = - 1
     \<and> last_file_submitted_index (state m')
         = last_file_submitted_index (state (demo_manager [''in/a.txt'', ''in/c.txt'']))"
proof -
  obtain m' rep where
    e: "submit_new_batch demo_env 5 (demo_manager [''in/a.txt'', ''in/c.txt'']) = Inr (m', rep)"
    and v: "built rep = []" "scan_log rep = [Stopped 0]"
      "last_file_submitted_index (state m') = - 1"
    by (simp add: demo_defs)
  from v(2) have "\<forall>i. Skipped i \<notin> set (scan_log rep)" by simp
  from empty_build_keeps_cursor[OF e v(1) this]
  have "last_file_submitted_index (state m')
         = last_file_submitted_index (state (demo_manager [''in/a.txt'', ''in/c.txt'']))"
    by (rule conjunct1)
  with e v show ?thesis by (intro exI[of _ m'] exI[of _ rep] conjI)
qed

text \<open>
  Claim C5 (skip on error). If the file at index \<open>k\<close> cannot be read or encoded and a
  call of \<^verbatim>\<open>submit_new_batch\<close> reaches index \<open>k\<close>, then the cursor it commits is
  at least \<open>k\<close>, the file is logged as skipped and is not packed into the batch, and in
  every later call the cursor stays at least \<open>k\<close>, only indices above \<open>k\<close> are
  looked at, and the file at \<open>k\<close> is never packed. (By \<open>submit_new_batch_built\<close> the
  batch consists of exactly the files of the \<open>Packed\<close> events.)
\<close>

theorem unreadable_item_is_dropped:
  assumes "submit_new_batch env available_token_capacity m = Inr (m', rep)"
    and "k \<in> event_index ` set (scan_log rep)"
    and "py_index (source_files (state m)) k = Inr filepath"
    and "load_request env filepath = Inl err"
    and "submit_sequence calls m' = Inr outs"
  shows "k \<le> last_file_submitted_index (state m')
    \<and> Skipped k \<in> set (scan_log rep)
    \<and> Packed k \<notin> set (scan_log rep)
    \<and> (\<forall>(m2, rep2)\<in>set outs.
          k \<le> last_file_submitted_index (state m2)
          \<and> (\<forall>e\<in>set (scan_log rep2). k < event_index e)
          \<and> Packed k \<notin> set (scan_log rep2))"
proof -
  from assms(2) obtain e where e: "e \<in> set (scan_log rep)" "event_index e = k" by auto
  from submit_new_batch_built(2)[OF assms(1)] e(1)
  have s: "event_sound env (source_files (state m)) e" by (simp add: list_all_iff)
  have ek: "e = Skipped k"
    using s e(2) assms(3,4) by (cases e) auto
  with e have sk: "Skipped k \<in> set (scan_log rep)" by simp
  have np: "Packed k \<notin> set (scan_log rep)"
  proof
    assume "Packed k \<in> set (scan_log rep)"
    with submit_new_batch_built(2)[OF assms(1)]
    have "event_sound env (source_files (state m)) (Packed k)" by (auto simp: list_all_iff)
    with assms(3,4) show False by simp
  qed
  from submit_new_batch_cursor(4)[OF assms(1)] sk
  have le: "k \<le> last_file_submitted_index (state m')" by fastforce
  have later: "\<forall>(m2, rep2)\<in>set outs.
          k \<le> last_file_submitted_index (state m2)
          \<and> (\<forall>e\<in>set (scan_log rep2). k < event_index e)
          \<and> Packed k \<notin> set (scan_log rep2)"
    using submit_sequence_later[OF assms(5)] le by fastforce
  from le sk np later show ?thesis by blast
qed

theorem unreadable_item_is_dropped_witness:
  "\<exists>m' rep outs.
     submit_new_batch demo_env 20 (demo_manager [''in/a.txt'', ''in/b.txt'', ''in/c.txt''])
       = Inr (m', rep)
     \<and> 1 \<in> event_index ` set (scan_log rep)
     \<and> py_index (source_files (state (demo_manager [''in/a.txt'', ''in/b.txt'', ''in/c.txt''])))
           1 = Inr ''in/b.txt''
     \<and> load_request demo_env ''in/b.txt'' = Inl FileError
     \<and> submit_sequence [(demo_env, 30)] m' = Inr outs
     \<and> map (\<lambda>out. scan_log (snd out)) outs = [[Packed 2]]
     \<and> 1 \<le> last_file_submitted_index (state m')
     \<and> Skipped 1 \<in> set (scan_log rep)"
proof -
  obtain m' rep where
    e: "submit_new_batch demo_env 20 (demo_manager [''in/a.txt'', ''in/b.txt'', ''in/c.txt''])
       = Inr (m', rep)"
    and k: "1 \<in> event_index ` set (scan_log rep)"
    and m': "m' = \<lparr>state = \<lparr>last_file_submitted_index = 1,
                 active_batches = [(''batch:a.txt'',
                    \<lparr>status = ''validating'', submitted_at = 0, input_file_id = ''file_9'',
                     total_tokens = Some 12, file_count = 1\<rparr>)],
                 source_files = [''in/a.txt'', ''in/b.txt'', ''in/c.txt''],
                 all_files_submitted = False\<rparr>,
               state_file = Some \<lparr>last_file_submitted_index = 1,
                 active_batches = [(''batch:a.txt'',
                    \<lparr>status = ''validating'', submitted_at = 0, input_file_id = ''file_9'',
                     total_tokens = Some 12, file_count = 1\<rparr>)],
                 source_files = [''in/a.txt'', ''in/b.txt'', ''in/c.txt''],
                 all_files_submitted = False\<rparr>\<rparr>"
    by (simp add: demo_defs)
  have p: "py_index (source_files (state (demo_manager [''in/a.txt'', ''in/b.txt'', ''in/c.txt''])))
           1 = Inr ''in/b.txt''"
    by (simp add: demo_defs)
  have l: "load_request demo_env ''in/b.txt'' = Inl FileError"
    by (simp add: demo_defs)
  obtain outs where
    s: "submit_sequence [(demo_env, 30)] m' = Inr outs"
    and o: "map (\<lambda>out. scan_log (snd out)) outs = [[Packed 2]]"
    unfolding m' by (simp add: demo_defs)
  from unreadable_item_is_dropped[OF e k p l s]
  have "1 \<le> last_file_submitted_index (state m')" "Skipped 1 \<in> set (scan_log rep)"
    by blast+
  with e k p l s o show ?thesis by (intro exI[of _ m'] exI[of _ rep] exI[of _ outs] conjI)
qed

text \<open>
  Claim C6 as stated fails: after a rejected submission the cursor need not be the index
  of the last packed file. Here the first file is packed, the second is unreadable and
  skipped, and the service rejects the batch: the last packed index is \<open>0\<close> and the
  cursor is \<open>1\<close>.
\<close>

theorem rejected_batch_cursor_past_last_packed:
  "submit_new_batch demo_env_down 30 (demo_manager [''in/a.txt'', ''in/b.txt''])
     = Inr (\<lparr>state = \<lparr>last_file_submitted_index = 1, active_batches = [],
                       source_files = [''in/a.txt'', ''in/b.txt''],
                       all_files_submitted = True\<rparr>,
             state_file = Some \<lparr>last_file_submitted_index = - 1, active_batches = [],
                       source_files = [''in/a.txt'', ''in/b.txt''],
                       all_files_submitted = False\<rparr>\<rparr>,
            \<lparr>built = [\<lparr>filename = ''a.txt'', content = ''<line 1> x''\<rparr>],
             scan_log = [Packed 0, Skipped 1], accepted = False\<rparr>)"
  by (simp add: demo_defs)

text \<open>
  Claim C6, amended. When a non-empty batch is rejected by the service, the state in
  memory keeps the cursor advance of the scan: \<^verbatim>\<open>last_file_submitted_index\<close> is
  the last index packed or skipped as unreadable, which is at least the index of every
  file packed into the rejected batch and strictly above the cursor before the call.
  \<^verbatim>\<open>active_batches\<close> is unchanged and the state file is not rewritten by this call.
\<close>

theorem rejected_batch_keeps_cursor_advance:
  assumes "submit_new_batch env available_token_capacity m = Inr (m', rep)"
    and "built rep \<noteq> []"
    and "\<not> accepted rep"
  shows "last_file_submitted_index (state m')
           = last (last_file_submitted_index (state m)
                     # List.map_filter consumed_index (scan_log rep))
    \<and> (\<forall>i. Packed i \<in> set (scan_log rep) \<longrightarrow> i \<le> last_file_submitted_index (state m'))
    \<and> last_file_submitted_index (state m) < last_file_submitted_index (state m')
    \<and> active_batches (state m') = active_batches (state m)
    \<and> state_file m' = state_file m"
proof -
  note c = submit_new_batch_cursor[OF assms(1)]
  have packed: "i \<le> last_file_submitted_index (state m')"
    if "Packed i \<in> set (scan_log rep)" for i
    using c(4) that by fastforce
  from built_nonempty_packed[OF assms(1,2)] obtain i where i: "Packed i \<in> set (scan_log rep)"
    by blast
  with c(3) have "last_file_submitted_index (state m) < i" by fastforce
  with packed[OF i] have lt: "last_file_submitted_index (state m) < last_file_submitted_index (state m')"
    by simp
  from submit_new_batch_saved[OF assms(1)] assms(2,3) have f: "state_file m' = state_file m"
    by simp
  from c(1) packed lt submit_new_batch_rejected[OF assms] f show ?thesis by blast
qed

theorem rejected_batch_keeps_cursor_advance_witness:
  "\<exists>m' rep. submit_new_batch demo_env_down 30 (demo_manager [''in/a.txt'', ''in/b.txt'', ''in/c.txt''])
       = Inr (m', rep)
     \<and> built rep \<noteq> [] \<and> \<not> accepted rep
     \<and> scan_log rep = [Packed 0, Skipped 1, Packed 2]
     \<and> last_file_submitted_index (state m') = 2
     \<and> last_file_submitted_index (state (demo_manager [''in/a.txt'', ''in/b.txt'', ''in/c.txt'']))
          < last_file_submitted_index (state m')"
proof -
  obtain m' rep where
    e: "submit_new_batch demo_env_down 30 (demo_manager [''in/a.txt'', ''in/b.txt'', ''in/c.txt''])
       = Inr (m', rep)"
    and v: "built rep \<noteq> []" "\<not> accepted rep" "scan_log rep = [Packed 0, Skipped 1, Packed 2]"
      "last_file_submitted_index (state m') = 2"
    by (simp add: demo_defs)
  from rejected_batch_keeps_cursor_advance[OF e v(1,2)]
  have "last_file_submitted_index (state (demo_manager [''in/a.txt'', ''in/b.txt'', ''in/c.txt'']))
          < last_file_submitted_index (state m')" by blast
  with e v show ?thesis by (intro exI[of _ m'] exI[of _ rep] conjI)
qed

lemma active_not_terminal:
  assumes "st \<in> set active_statuses"
  shows "st \<notin> set terminal_statuses"
  using assms by (auto simp: active_statuses_def terminal_statuses_def)

lemma queue_size_loop_result:
  assumes "distinct ids" and "\<forall>k\<in>set ids. map_of batches k \<noteq> None"
  shows "\<exists>batches'.
     queue_size_loop retrieve ids batches total_tok
       = Inr (batches',
              total_tok + sum_list (map (\<lambda>k. case map_of batches k of
                   None \<Rightarrow> 0
                 | Some r \<Rightarrow> (case retrieve k of
                       Inl e \<Rightarrow> committed_tokens r
                     | Inr st \<Rightarrow> if st \<in> set active_statuses then committed_tokens r else 0)) ids))
     \<and> (\<forall>k. map_of batches' k =
           (if k \<in> set ids then
              (case map_of batches k of
                 None \<Rightarrow> None
               | Some r \<Rightarrow> (case retrieve k of
                     Inl e \<Rightarrow> Some r
                   | Inr st \<Rightarrow> if st \<in> set terminal_statuses then None
                              else Some (r\<lparr>status := st\<rparr>)))
            else map_of batches k))"
  using assms
proof (induction ids arbitrary: batches total_tok)
  case Nil
  then show ?case by simp
next
  case (Cons b ids)
  let ?c = "\<lambda>bs k. case map_of bs k of
                   None \<Rightarrow> 0
                 | Some r \<Rightarrow> (case retrieve k of
                       Inl e \<Rightarrow> committed_tokens r
                     | Inr st \<Rightarrow> if st \<in> set active_statuses then committed_tokens r else 0)"
  let ?keep = "\<lambda>bs k. case map_of bs k of
                 None \<Rightarrow> None
               | Some r \<Rightarrow> (case retrieve k of
                     Inl e \<Rightarrow> Some r
                   | Inr st \<Rightarrow> if st \<in> set terminal_statuses then None
                              else Some (r\<lparr>status := st\<rparr>))"
  from Cons.prems obtain r where r: "map_of batches b = Some r" by auto
  from Cons.prems have d: "distinct ids" and nb: "b \<notin> set ids" by auto
  have step: "\<exists>batches'.
       queue_size_loop retrieve ids bs1 t1 = Inr (batches', t1 + sum_list (map (?c batches) ids))
       \<and> (\<forall>k. map_of batches' k = (if k \<in> set ids then ?keep batches k else map_of bs1 k))"
    if same: "\<forall>k. k \<noteq> b \<longrightarrow> map_of bs1 k = map_of batches k" for bs1 t1
  proof -
    have pres: "\<forall>k\<in>set ids. map_of bs1 k \<noteq> None"
      using Cons.prems(2) nb same by auto
    have e1: "map (?c bs1) ids = map (?c batches) ids"
      using nb same by (intro map_cong refl) auto
    have e2: "(if k \<in> set ids then ?keep bs1 k else map_of bs1 k)
            = (if k \<in> set ids then ?keep batches k else map_of bs1 k)" for k
      using nb same by auto
    from Cons.IH[OF d pres, of t1] show ?thesis
      unfolding e1 e2 by blast
  qed
  show ?case
  proof (cases "retrieve b")
    case (Inl e)
    from step[of batches "total_tok + committed_tokens r"] obtain batches' where
      "queue_size_loop retrieve ids batches (total_tok + committed_tokens r)
         = Inr (batches', total_tok + committed_tokens r + sum_list (map (?c batches) ids))"
      "\<forall>k. map_of batches' k = (if k \<in> set ids then ?keep batches k else map_of batches k)"
      by auto
    with r Inl show ?thesis
      by (intro exI[of _ batches']) (auto simp: add.assoc)
  next
    case (Inr st)
    let ?bs = "AList.update b (r\<lparr>status := st\<rparr>) batches"
    show ?thesis
    proof (cases "st \<in> set active_statuses")
      case True
      have ct: "(case total_tokens (r\<lparr>status := st\<rparr>) of Some t \<Rightarrow> t
                 | None \<Rightarrow> committed_tokens (r\<lparr>status := st\<rparr>)) = committed_tokens r"
        by (simp add: committed_tokens_def split: option.splits)
      have "\<forall>k. k \<noteq> b \<longrightarrow> map_of ?bs k = map_of batches k" by (simp add: update_conv')
      from step[OF this, of "total_tok + committed_tokens r"] obtain batches' where
        b': "queue_size_loop retrieve ids ?bs (total_tok + committed_tokens r)
           = Inr (batches', total_tok + committed_tokens r + sum_list (map (?c batches) ids))"
        "\<forall>k. map_of batches' k = (if k \<in> set ids then ?keep batches k else map_of ?bs k)"
        by auto
      have run: "queue_size_loop retrieve (b # ids) batches total_tok
          = queue_size_loop retrieve ids ?bs (total_tok + committed_tokens r)"
        using r Inr True ct by (simp add: Let_def committed_tokens_def split: option.splits)
      show ?thesis
        unfolding run
        using b' r Inr True active_not_terminal[OF True]
        by (intro exI[of _ batches']) (auto simp: add.assoc update_conv')
    next
      case False
      show ?thesis
      proof (cases "st \<in> set terminal_statuses")
        case True
        let ?bd = "AList.delete b ?bs"
        have "\<forall>k. k \<noteq> b \<longrightarrow> map_of ?bd k = map_of batches k"
          by (simp add: update_conv' delete_conv')
        from step[OF this, of total_tok] obtain batches' where
          b': "queue_size_loop retrieve ids ?bd total_tok
             = Inr (batches', total_tok + sum_list (map (?c batches) ids))"
          "\<forall>k. map_of batches' k = (if k \<in> set ids then ?keep batches k else map_of ?bd k)"
          by auto
        have run: "queue_size_loop retrieve (b # ids) batches total_tok
            = queue_size_loop retrieve ids ?bd total_tok"
          using r Inr True False by (simp add: Let_def)
        show ?thesis
          unfolding run
          using b' r Inr True False
          by (intro exI[of _ batches']) (auto simp: update_conv' delete_conv')
      next
        case nt: False
        have "\<forall>k. k \<noteq> b \<longrightarrow> map_of ?bs k = map_of batches k" by (simp add: update_conv')
        from step[OF this, of total_tok] obtain batches' where
          b': "queue_size_loop retrieve ids ?bs total_tok
             = Inr (batches', total_tok + sum_list (map (?c batches) ids))"
          "\<forall>k. map_of batches' k = (if k \<in> set ids then ?keep batches k else map_of ?bs k)"
          by auto
        have run: "queue_size_loop retrieve (b # ids) batches total_tok
            = queue_size_loop retrieve ids ?bs total_tok"
          using r Inr nt False by (simp add: Let_def)
        show ?thesis
          unfolding run
          using b' r Inr nt False
          by (intro exI[of _ batches']) (auto simp: update_conv')
      qed
    qed
  qed
qed


lemma get_current_queue_size_saved:
  assumes "get_current_queue_size env m = Inr (m', total_tok)"
  shows "state_file m' = (if active_batches (state m) = [] then state_file m else Some (state m'))"
    and "last_file_submitted_index (state m') = last_file_submitted_index (state m)"
    and "source_files (state m') = source_files (state m)"
  using assms
  by (auto simp: get_current_queue_size_def save_state_def split: if_splits sum.splits)

text \<open>
  Claim C3 (refresh). When the keys of \<^verbatim>\<open>active_batches\<close> are distinct, as the keys
  of a dict are, \<^verbatim>\<open>get_current_queue_size\<close> returns, and the total it returns is
  the sum over the tracked records of: the committed cost when the status query fails,
  the committed cost when the refreshed status is one of the active ones, and nothing
  otherwise. A record whose query fails stays in the map unchanged, a record whose
  refreshed status is terminal is removed, any other record stays with its status
  refreshed, and no key is added.
\<close>

theorem refresh_total_by_status:
  assumes "distinct (map fst (active_batches (state m)))"
  shows "\<exists>m'. get_current_queue_size env m
           = Inr (m', sum_list (map (\<lambda>(h, r). case retrieve_status env h of
                                Inl e \<Rightarrow> committed_tokens r
                              | Inr st \<Rightarrow> if st \<in> set active_statuses then committed_tokens r else 0)
                          (active_batches (state m))))
     \<and> (\<forall>h r. map_of (active_batches (state m)) h = Some r \<longrightarrow>
           map_of (active_batches (state m')) h =
             (case retrieve_status env h of
                Inl e \<Rightarrow> Some r
              | Inr st \<Rightarrow> if st \<in> set terminal_statuses then None else Some (r\<lparr>status := st\<rparr>)))
     \<and> (\<forall>h. map_of (active_batches (state m)) h = None \<longrightarrow>
           map_of (active_batches (state m')) h = None)"
proof (cases "active_batches (state m) = []")
  case True
  then show ?thesis by (simp add: get_current_queue_size_def)
next
  case False
  let ?ab = "active_batches (state m)"
  let ?retrieve = "retrieve_status env"
  have pres: "\<forall>k\<in>set (map fst ?ab). map_of ?ab k \<noteq> None"
    by (auto simp: map_of_eq_None_iff)
  from queue_size_loop_result[OF assms pres, of ?retrieve 0] obtain batches' where
    run: "queue_size_loop ?retrieve (map fst ?ab) ?ab 0
       = Inr (batches',
              0 + sum_list (map (\<lambda>k. case map_of ?ab k of
                   None \<Rightarrow> 0
                 | Some r \<Rightarrow> (case ?retrieve k of
                       Inl e \<Rightarrow> committed_tokens r
                     | Inr st \<Rightarrow> if st \<in> set active_statuses then committed_tokens r else 0))
                 (map fst ?ab)))"
    and kept: "\<forall>k. map_of batches' k =
           (if k \<in> set (map fst ?ab) then
              (case map_of ?ab k of
                 None \<Rightarrow> None
               | Some r \<Rightarrow> (case ?retrieve k of
                     Inl e \<Rightarrow> Some r
                   | Inr st \<Rightarrow> if st \<in> set terminal_statuses then None
                              else Some (r\<lparr>status := st\<rparr>)))
            else map_of ?ab k)"
    by blast
  have sum_eq: "map (\<lambda>k. case map_of ?ab k of
                   None \<Rightarrow> 0
                 | Some r \<Rightarrow> (case ?retrieve k of
                       Inl e \<Rightarrow> committed_tokens r
                     | Inr st \<Rightarrow> if st \<in> set active_statuses then committed_tokens r else 0))
                 (map fst ?ab)
        = map (\<lambda>(h, r). case ?retrieve h of
                                Inl e \<Rightarrow> committed_tokens r
                              | Inr st \<Rightarrow> if st \<in> set active_statuses then committed_tokens r else 0) ?ab"
    unfolding map_map
  proof (rule map_cong[OF refl])
    fix x assume x: "x \<in> set ?ab"
    obtain h r where hr: "x = (h, r)" by (cases x)
    with x assms have "map_of ?ab h = Some r" by simp
    with hr show "((\<lambda>k. case map_of ?ab k of
                   None \<Rightarrow> 0
                 | Some r \<Rightarrow> (case ?retrieve k of
                       Inl e \<Rightarrow> committed_tokens r
                     | Inr st \<Rightarrow> if st \<in> set active_statuses then committed_tokens r else 0)) \<circ> fst) x
       = (case x of (h, r) \<Rightarrow> case ?retrieve h of
                                Inl e \<Rightarrow> committed_tokens r
                              | Inr st \<Rightarrow> if st \<in> set active_statuses then committed_tokens r else 0)"
      by simp
  qed
  let ?m' = "save_state (m\<lparr>state := (state m)\<lparr>active_batches := batches'\<rparr>\<rparr>)"
  have res: "get_current_queue_size env m
           = Inr (?m', sum_list (map (\<lambda>(h, r). case ?retrieve h of
                                Inl e \<Rightarrow> committed_tokens r
                              | Inr st \<Rightarrow> if st \<in> set active_statuses then committed_tokens r else 0) ?ab))"
    using False run unfolding sum_eq by (simp add: get_current_queue_size_def)
  have ab': "active_batches (state ?m') = batches'" by (simp add: save_state_def)
  have k1: "map_of batches' h =
             (case ?retrieve h of
                Inl e \<Rightarrow> Some r
              | Inr st \<Rightarrow> if st \<in> set terminal_statuses then None else Some (r\<lparr>status := st\<rparr>))"
    if "map_of ?ab h = Some r" for h r
  proof -
    from that have "h \<in> set (map fst ?ab)" by (metis map_of_eq_None_iff option.distinct(1) set_map)
    with kept that show ?thesis by simp
  qed
  have k2: "map_of batches' h = None" if "map_of ?ab h = None" for h
    using kept that by (simp split: if_splits)
  show ?thesis
    by (intro exI[of _ ?m'] conjI allI impI) (use res ab' k1 k2 in auto)
qed

lemmas tracking_defs = demo_tracking_def demo_env_def demo_status_def get_current_queue_size_def
  save_state_def active_statuses_def terminal_statuses_def committed_tokens_def Let_def

theorem refresh_total_by_status_witness:
  "distinct (map fst (active_batches (state demo_tracking)))
   \<and> (\<exists>m'. get_current_queue_size demo_env demo_tracking = Inr (m', 107)
        \<and> map fst (active_batches (state m')) = [''batch_1'', ''batch_3'']
        \<and> map_of (active_batches (state m')) ''batch_2'' = None)"
proof -
  have d: "distinct (map fst (active_batches (state demo_tracking)))"
    by (simp add: demo_tracking_def)
  have r: "map_of (active_batches (state demo_tracking)) ''batch_2'' =
     Some \<lparr>status = ''in_progress'', submitted_at = 2, input_file_id = ''file_2'',
           total_tokens = Some 50, file_count = 2\<rparr>"
    by (simp add: demo_tracking_def)
  obtain m' where
    e: "get_current_queue_size demo_env demo_tracking = Inr (m', 107)"
    and k: "map fst (active_batches (state m')) = [''batch_1'', ''batch_3'']"
    by (simp add: tracking_defs)
  from refresh_total_by_status[OF d, of demo_env] e r
  have "map_of (active_batches (state m')) ''batch_2'' = None"
    by (auto simp: demo_env_def demo_status_def terminal_statuses_def)
  with d e k show ?thesis by (intro conjI exI[of _ m'])
qed

section \<open>Properties of the retrieval script\<close>

lemma completed_loop_calls:
  "set (snd (completed_loop env processed ids)) = Retrieve ` (set ids - processed)"
  by (induction ids) (auto split: prod.splits sum.splits)

lemma completed_loop_batches:
  "set (fst (completed_loop env processed ids))
     = {b. \<exists>k\<in>set ids - processed. batches_retrieve env k = Inr b \<and> obj_status b = ''completed''}"
  by (induction ids) (auto split: prod.splits sum.splits)

lemma get_new_completed_batches_calls:
  "set (snd (get_new_completed_batches env r))
     = Retrieve ` (set (batch_ids_to_check r) - processed_batch_ids r)"
  by (simp add: get_new_completed_batches_def completed_loop_calls)

lemma get_new_completed_batches_set:
  "set (fst (get_new_completed_batches env r))
     = {b. \<exists>k\<in>set (batch_ids_to_check r) - processed_batch_ids r.
             batches_retrieve env k = Inr b \<and> obj_status b = ''completed''}"
  by (simp add: get_new_completed_batches_def completed_loop_batches)

lemma process_batch_result_calls:
  assumes "c \<in> set (snd (process_batch_result env batch))"
  shows "\<exists>f. c = Download f \<and> output_file_id batch = Some f"
  using assms by (auto simp: process_batch_result_def split: option.splits if_splits sum.splits)

lemma parse_lines_distinct:
  assumes "parse_lines env lines res = Some res'" and "distinct (map fst res)"
  shows "distinct (map fst res')"
  using assms
  by (induction lines arbitrary: res) (auto split: line_outcome.splits simp: distinct_update)

lemma process_batch_result_distinct:
  "distinct (map fst (fst (process_batch_result env batch)))"
  using parse_lines_distinct[of env _ "[]"]
  by (auto simp: process_batch_result_def split: option.splits sum.splits)

lemma dict_update_distinct:
  assumes "distinct (map fst d)"
  shows "distinct (map fst (dict_update d other))"
  using assms unfolding dict_update_def
  by (induction other arbitrary: d) (auto simp: distinct_update)

lemma dict_update_map_of:
  assumes "distinct (map fst other)"
  shows "map_of (dict_update d other) = map_of d ++ map_of other"
  using assms unfolding dict_update_def
proof (induction other arbitrary: d)
  case Nil
  then show ?case by simp
next
  case (Cons kv other)
  obtain k v where kv: "kv = (k, v)" by (cases kv)
  with Cons.prems have d: "distinct (map fst other)" and nk: "map_of other k = None"
    by (auto simp: map_of_eq_None_iff)
  have u: "map_of (AList.update k v d) = (map_of d)(k \<mapsto> v)" by (rule update_conv')
  have ih: "map_of (fold (\<lambda>(k, v). AList.update k v) other (AList.update k v d))
      = map_of (AList.update k v d) ++ map_of other"
    by (rule Cons.IH[OF d])
  have "map_of (fold (\<lambda>(k, v). AList.update k v) (kv # other) d) x
      = (map_of d ++ map_of (kv # other)) x" for x
    using nk by (cases "x = k") (simp_all add: kv ih u map_add_def split: option.splits)
  then show ?case by blast
qed

lemma dict_update_empty:
  assumes "dict_update d other = []"
  shows "d = [] \<and> other = []"
proof -
  have "fold (\<lambda>(k, v). AList.update k v) other d \<noteq> []" if "d \<noteq> [] \<or> other \<noteq> []" for d
    using that
  proof (induction other arbitrary: d)
    case Nil
    then show ?case by simp
  next
    case (Cons kv other)
    obtain k v where kv: "kv = (k, v)" by (cases kv)
    have "AList.update k v d \<noteq> []" by (cases d) auto
    with Cons.IH[of "AList.update k v d"] kv show ?case by simp
  qed
  with assms show ?thesis unfolding dict_update_def by blast
qed

lemma merge_loop_Cons:
  "merge_loop env (b # bs) all_new r =
     (fst (merge_loop env bs (dict_update all_new (fst (process_batch_result env b)))
            (save_processed_state
               (r\<lparr>processed_batch_ids := insert (obj_id b) (processed_batch_ids r)\<rparr>))),
      fst (snd (merge_loop env bs (dict_update all_new (fst (process_batch_result env b)))
            (save_processed_state
               (r\<lparr>processed_batch_ids := insert (obj_id b) (processed_batch_ids r)\<rparr>)))),
      snd (process_batch_result env b)
        @ snd (snd (merge_loop env bs (dict_update all_new (fst (process_batch_result env b)))
            (save_processed_state
               (r\<lparr>processed_batch_ids := insert (obj_id b) (processed_batch_ids r)\<rparr>)))))"
  by (simp split: prod.splits)

lemma merge_loop_processed:
  "processed_batch_ids (fst (snd (merge_loop env bs all_new r)))
     = processed_batch_ids r \<union> obj_id ` set bs"
  by (induction bs arbitrary: all_new r)
     (auto simp: merge_loop_Cons save_processed_state_def simp del: merge_loop.simps(2))

lemma merge_loop_files:
  "submission_state_file (fst (snd (merge_loop env bs all_new r))) = submission_state_file r
   \<and> merged_output_file (fst (snd (merge_loop env bs all_new r))) = merged_output_file r"
  by (induction bs arbitrary: all_new r)
     (auto simp: merge_loop_Cons save_processed_state_def simp del: merge_loop.simps(2))

lemma merge_loop_saved:
  "processed_batches_file (fst (snd (merge_loop env bs all_new r)))
     = (if bs = [] then processed_batches_file r
        else Some (Inr (processed_batch_ids (fst (snd (merge_loop env bs all_new r))))))"
proof (induction bs arbitrary: all_new r)
  case Nil
  then show ?case by simp
next
  case (Cons b bs)
  show ?case
    using Cons.IH[of "dict_update all_new (fst (process_batch_result env b))"
        "save_processed_state (r\<lparr>processed_batch_ids := insert (obj_id b) (processed_batch_ids r)\<rparr>)"]
      merge_loop_processed[of env bs "dict_update all_new (fst (process_batch_result env b))"
        "save_processed_state (r\<lparr>processed_batch_ids := insert (obj_id b) (processed_batch_ids r)\<rparr>)"]
    by (auto simp: merge_loop_Cons save_processed_state_def simp del: merge_loop.simps(2))
qed

lemma merge_loop_calls:
  "snd (snd (merge_loop env bs all_new r))
     = concat (map (\<lambda>b. snd (process_batch_result env b)) bs)"
  by (induction bs arbitrary: all_new r)
     (auto simp: merge_loop_Cons simp del: merge_loop.simps(2))

lemma merge_loop_map_of:
  "map_of (fst (merge_loop env bs all_new r))
     = foldl (++) (map_of all_new) (map (\<lambda>b. map_of (fst (process_batch_result env b))) bs)"
proof (induction bs arbitrary: all_new r)
  case Nil
  then show ?case by simp
next
  case (Cons b bs)
  have "map_of (dict_update all_new (fst (process_batch_result env b)))
      = map_of all_new ++ map_of (fst (process_batch_result env b))"
    by (rule dict_update_map_of[OF process_batch_result_distinct])
  with Cons.IH[of "dict_update all_new (fst (process_batch_result env b))"] show ?case
    by (simp add: merge_loop_Cons del: merge_loop.simps(2))
qed

lemma merge_loop_distinct:
  assumes "distinct (map fst all_new)"
  shows "distinct (map fst (fst (merge_loop env bs all_new r)))"
  using assms
proof (induction bs arbitrary: all_new r)
  case Nil
  then show ?case by simp
next
  case (Cons b bs)
  from Cons.IH[OF dict_update_distinct[OF Cons.prems]] show ?case
    by (simp add: merge_loop_Cons del: merge_loop.simps(2))
qed

lemma merge_loop_empty:
  assumes "fst (merge_loop env bs all_new r) = []"
  shows "all_new = [] \<and> (\<forall>b\<in>set bs. fst (process_batch_result env b) = [])"
  using assms
proof (induction bs arbitrary: all_new r)
  case Nil
  then show ?case by simp
next
  case (Cons b bs)
  let ?r1 = "save_processed_state (r\<lparr>processed_batch_ids := insert (obj_id b) (processed_batch_ids r)\<rparr>)"
  from Cons.prems have "fst (merge_loop env bs (dict_update all_new (fst (process_batch_result env b))) ?r1) = []"
    by (simp add: merge_loop_Cons del: merge_loop.simps(2))
  from Cons.IH[OF this] dict_update_empty[of all_new "fst (process_batch_result env b)"]
  show ?case by simp
qed

lemma run_unfold:
  "run env r =
    (if fst (get_new_completed_batches env r) = [] then
       (r, snd (get_new_completed_batches env r), NoNewResults)
     else if fst (merge_loop env (fst (get_new_completed_batches env r)) [] r) = [] then
       (fst (snd (merge_loop env (fst (get_new_completed_batches env r)) [] r)),
        snd (get_new_completed_batches env r)
          @ snd (snd (merge_loop env (fst (get_new_completed_batches env r)) [] r)),
        NoValidData)
     else
       (case merged_output_file (fst (snd (merge_loop env (fst (get_new_completed_batches env r)) [] r))) of
          Some (Inl e) \<Rightarrow>
            (fst (snd (merge_loop env (fst (get_new_completed_batches env r)) [] r)),
             snd (get_new_completed_batches env r)
               @ snd (snd (merge_loop env (fst (get_new_completed_batches env r)) [] r)),
             Crashed e)
        | _ \<Rightarrow>
            ((fst (snd (merge_loop env (fst (get_new_completed_batches env r)) [] r)))
               \<lparr>merged_output_file := Some (Inr
                  \<lparr>results = Some (dict_update
                       (stored_results (fst (snd (merge_loop env (fst (get_new_completed_batches env r)) [] r))))
                       (fst (merge_loop env (fst (get_new_completed_batches env r)) [] r))),
                   last_updated_timestamp = Some (timestamp env),
                   total_files_processed = Some (length (dict_update
                       (stored_results (fst (snd (merge_loop env (fst (get_new_completed_batches env r)) [] r))))
                       (fst (merge_loop env (fst (get_new_completed_batches env r)) [] r))))\<rparr>)\<rparr>,
             snd (get_new_completed_batches env r)
               @ snd (snd (merge_loop env (fst (get_new_completed_batches env r)) [] r)),
             Merged)))"
  by (simp add: run_def Let_def split: prod.splits option.splits sum.splits)

lemma run_calls:
  "fst (snd (run env r)) =
     snd (get_new_completed_batches env r)
       @ concat (map (\<lambda>b. snd (process_batch_result env b)) (fst (get_new_completed_batches env r)))"
  by (simp add: run_unfold merge_loop_calls split: option.splits sum.splits)

lemma run_processed:
  "processed_batch_ids (fst (run env r))
     = processed_batch_ids r \<union> obj_id ` set (fst (get_new_completed_batches env r))"
  by (simp add: run_unfold merge_loop_processed split: option.splits sum.splits)

lemma run_submission_file:
  "submission_state_file (fst (run env r)) = submission_state_file r"
  by (simp add: run_unfold merge_loop_files split: option.splits sum.splits)

lemma run_processed_file:
  "processed_batches_file (fst (run env r))
     = (if fst (get_new_completed_batches env r) = [] then processed_batches_file r
        else Some (Inr (processed_batch_ids (fst (run env r)))))"
  using merge_loop_saved[of env "fst (get_new_completed_batches env r)" "[]" r]
  by (simp add: run_unfold split: option.splits sum.splits)

lemma run_nothing_new:
  assumes "fst (get_new_completed_batches env r) = []"
  shows "run env r = (r, snd (get_new_completed_batches env r), NoNewResults)"
  using assms by (simp add: run_unfold)

lemma stored_results_merge_loop:
  "stored_results (fst (snd (merge_loop env bs all_new r))) = stored_results r"
  by (simp add: stored_results_def merge_loop_files)

lemma run_store:
  assumes "\<forall>e. merged_output_file r \<noteq> Some (Inl e)"
  shows "map_of (stored_results (fst (run env r)))
     = map_of (stored_results r)
         ++ foldl (++) Map.empty
              (map (\<lambda>b. map_of (fst (process_batch_result env b)))
                   (fst (get_new_completed_batches env r)))"
proof -
  let ?nb = "fst (get_new_completed_batches env r)"
  let ?ml = "merge_loop env ?nb [] r"
  have m: "map_of (fst ?ml)
      = foldl (++) Map.empty (map (\<lambda>b. map_of (fst (process_batch_result env b))) ?nb)"
    using merge_loop_map_of[of env ?nb "[]" r] by simp
  have d: "distinct (map fst (fst ?ml))" by (rule merge_loop_distinct) simp
  have f: "merged_output_file (fst (snd ?ml)) = merged_output_file r"
    using merge_loop_files by blast
  show ?thesis
  proof (cases "?nb = []")
    case True
    then show ?thesis by (simp add: run_unfold)
  next
    case nb: False
    show ?thesis
    proof (cases "fst ?ml = []")
      case True
      with nb m[symmetric] show ?thesis
        by (simp add: run_unfold stored_results_merge_loop)
    next
      case False
      have "fst (run env r) = (fst (snd ?ml))
               \<lparr>merged_output_file := Some (Inr
                  \<lparr>results = Some (dict_update (stored_results (fst (snd ?ml))) (fst ?ml)),
                   last_updated_timestamp = Some (timestamp env),
                   total_files_processed = Some (length (dict_update
                       (stored_results (fst (snd ?ml))) (fst ?ml)))\<rparr>)\<rparr>"
        using nb False assms f by (simp add: run_unfold split: option.splits sum.splits)
      then have "stored_results (fst (run env r)) = dict_update (stored_results r) (fst ?ml)"
        by (simp add: stored_results_def[of "_\<lparr>merged_output_file := _\<rparr>"] stored_results_merge_loop)
      with dict_update_map_of[OF d] m show ?thesis by simp
    qed
  qed
qed

lemma foldl_map_add_none:
  assumes "\<forall>b\<in>set bs. f b x = None"
  shows "foldl (++) m (map f bs) x = m x"
  using assms by (induction bs arbitrary: m) (auto simp: map_add_def)

lemma foldl_map_add_last:
  assumes "f b x = Some p" and "\<forall>b'\<in>set post. f b' x = None"
  shows "foldl (++) m (map f (pre @ b # post)) x = Some p"
proof -
  have "foldl (++) m (map f (pre @ b # post)) = foldl (++) (foldl (++) m (map f pre) ++ f b) (map f post)"
    by simp
  moreover have "foldl (++) (foldl (++) m (map f pre) ++ f b) (map f post) x
      = (foldl (++) m (map f pre) ++ f b) x"
    using assms(2) by (rule foldl_map_add_none)
  ultimately show ?thesis using assms(1) by (simp add: map_add_def)
qed

lemmas retrieval_defs = demo_retriever_def demo_tracking_def demo_service_def demo_service_down_def
  demo_retrieve_def demo_lines_def demo_lines_down_def demo_read_line_def save_state_def
  main_def run_def start_retriever_def load_processed_state_def save_processed_state_def
  get_new_completed_batches_def batch_ids_to_check_def process_batch_result_def
  stored_results_def dict_update_def Let_def

text \<open>
  Claim C9 (last writer wins). For a run that starts from a readable (or absent) merged
  file: if the new completed batches are processed in the order \<open>pre @ b # post\<close>, the
  results of \<open>b\<close> hold payload \<open>p\<close> for identity \<open>x\<close> and no batch of \<open>post\<close> has a
  result for \<open>x\<close>, then the store holds exactly \<open>p\<close> for \<open>x\<close> after the run, whatever
  earlier batches or the store itself held for \<open>x\<close>; an identity that no new batch has
  a result for keeps its entry; and no identity leaves the store.
\<close>

theorem last_writer_wins:
  assumes "\<forall>e. merged_output_file r \<noteq> Some (Inl e)"
  shows "(\<forall>pre b post x p.
            fst (get_new_completed_batches env r) = pre @ b # post
            \<and> map_of (fst (process_batch_result env b)) x = Some p
            \<and> (\<forall>b'\<in>set post. map_of (fst (process_batch_result env b')) x = None)
            \<longrightarrow> map_of (stored_results (fst (run env r))) x = Some p)
    \<and> (\<forall>x. (\<forall>b\<in>set (fst (get_new_completed_batches env r)).
                 map_of (fst (process_batch_result env b)) x = None)
            \<longrightarrow> map_of (stored_results (fst (run env r))) x = map_of (stored_results r) x)
    \<and> dom (map_of (stored_results r)) \<subseteq> dom (map_of (stored_results (fst (run env r))))"
proof (intro conjI allI impI)
  note s = run_store[OF assms, of env]
  {
    fix pre b post x p
    assume a: "fst (get_new_completed_batches env r) = pre @ b # post
            \<and> map_of (fst (process_batch_result env b)) x = Some p
            \<and> (\<forall>b'\<in>set post. map_of (fst (process_batch_result env b')) x = None)"
    then have "foldl (++) Map.empty
              (map (\<lambda>b. map_of (fst (process_batch_result env b))) (pre @ b # post)) x = Some p"
      by (intro foldl_map_add_last) auto
    with a s show "map_of (stored_results (fst (run env r))) x = Some p"
      by (simp add: map_add_def)
  }
  {
    fix x
    assume "\<forall>b\<in>set (fst (get_new_completed_batches env r)).
                 map_of (fst (process_batch_result env b)) x = None"
    then have "foldl (++) Map.empty
              (map (\<lambda>b. map_of (fst (process_batch_result env b)))
                 (fst (get_new_completed_batches env r))) x = None"
      by (simp add: foldl_map_add_none)
    with s show "map_of (stored_results (fst (run env r))) x = map_of (stored_results r) x"
      by (simp add: map_add_def)
  }
  show "dom (map_of (stored_results r)) \<subseteq> dom (map_of (stored_results (fst (run env r))))"
    unfolding s by auto
qed

theorem last_writer_wins_witness:
  "merged_output_file (demo_retriever (save_state demo_tracking)) = None
   \<and> map (\<lambda>b. fst (process_batch_result demo_service b))
        (fst (get_new_completed_batches demo_service (demo_retriever (save_state demo_tracking))))
       = [[(''a.txt'', ''v1''), (''b.txt'', ''v1'')], [(''a.txt'', ''v2'')]]
   \<and> map_of (stored_results (fst (run demo_service (demo_retriever (save_state demo_tracking)))))
        ''a.txt'' = Some ''v2''"
proof -
  let ?r = "demo_retriever (save_state demo_tracking)"
  let ?b1 = "\<lparr>obj_id = ''batch_1'', obj_status = ''completed'', output_file_id = Some ''out_1''\<rparr>"
  let ?b2 = "\<lparr>obj_id = ''batch_2'', obj_status = ''completed'', output_file_id = Some ''out_2''\<rparr>"
  have f: "merged_output_file ?r = None" by (simp add: demo_retriever_def)
  then have h: "\<forall>e. merged_output_file ?r \<noteq> Some (Inl e)" by simp
  have nb: "fst (get_new_completed_batches demo_service ?r) = [?b1, ?b2]"
    by (simp add: retrieval_defs)
  have r1: "fst (process_batch_result demo_service ?b1) = [(''a.txt'', ''v1''), (''b.txt'', ''v1'')]"
    by (simp add: retrieval_defs)
  have r2: "fst (process_batch_result demo_service ?b2) = [(''a.txt'', ''v2'')]"
    by (simp add: retrieval_defs)
  note c = last_writer_wins[OF h, of demo_service, THEN conjunct1, rule_format,
      of "[?b1]" ?b2 "[]" "''a.txt''" "''v2''"]
  have "map_of (stored_results (fst (run demo_service ?r))) ''a.txt'' = Some ''v2''"
    by (rule c) (simp add: nb r2)
  moreover have "map (\<lambda>b. fst (process_batch_result demo_service b))
        (fst (get_new_completed_batches demo_service ?r))
       = [[(''a.txt'', ''v1''), (''b.txt'', ''v1'')], [(''a.txt'', ''v2'')]]"
    unfolding nb by (simp add: r1 r2)
  ultimately show ?thesis using f by (intro conjI)
qed

lemma run_retrieve_calls:
  assumes "Retrieve h \<in> set (fst (snd (run env r)))"
  shows "h \<in> set (batch_ids_to_check r)" and "h \<notin> processed_batch_ids r"
proof -
  from assms have "Retrieve h \<in> set (snd (get_new_completed_batches env r))
      \<or> (\<exists>b. Retrieve h \<in> set (snd (process_batch_result env b)))"
    by (auto simp: run_calls)
  then have "Retrieve h \<in> set (snd (get_new_completed_batches env r))"
    using process_batch_result_calls by blast
  then have "h \<in> set (batch_ids_to_check r) \<and> h \<notin> processed_batch_ids r"
    by (auto simp: get_new_completed_batches_calls)
  then show "h \<in> set (batch_ids_to_check r)" and "h \<notin> processed_batch_ids r" by blast+
qed

lemma run_download_calls:
  assumes "Download f \<in> set (fst (snd (run env r)))"
  shows "\<exists>k\<in>set (batch_ids_to_check r) - processed_batch_ids r.
           \<exists>b. batches_retrieve env k = Inr b \<and> obj_status b = ''completed''
                \<and> output_file_id b = Some f"
proof -
  from assms have "Download f \<in> set (snd (get_new_completed_batches env r))
      \<or> (\<exists>b\<in>set (fst (get_new_completed_batches env r)).
             Download f \<in> set (snd (process_batch_result env b)))"
    by (auto simp: run_calls)
  moreover have "Download f \<notin> set (snd (get_new_completed_batches env r))"
    by (auto simp: get_new_completed_batches_calls)
  ultimately obtain b where b: "b \<in> set (fst (get_new_completed_batches env r))"
    and d: "Download f \<in> set (snd (process_batch_result env b))" by blast
  from process_batch_result_calls[OF d] have "output_file_id b = Some f" by simp
  with b show ?thesis by (auto simp: get_new_completed_batches_set)
qed

lemma run_all_processed:
  assumes "\<forall>k\<in>set (batch_ids_to_check r). k \<notin> processed_batch_ids r \<longrightarrow>
             (\<forall>b. batches_retrieve env k = Inr b \<longrightarrow> obj_status b \<noteq> ''completed'')"
  shows "fst (run env r) = r" and "snd (snd (run env r)) = NoNewResults"
    and "Download f \<notin> set (fst (snd (run env r)))"
proof -
  from assms have "set (fst (get_new_completed_batches env r)) = {}"
    unfolding get_new_completed_batches_set by blast
  then have e: "fst (get_new_completed_batches env r) = []" by simp
  from run_nothing_new[OF e] show "fst (run env r) = r" and "snd (snd (run env r)) = NoNewResults"
    by simp_all
  show "Download f \<notin> set (fst (snd (run env r)))"
    using run_download_calls[of f env r] assms by blast
qed

lemma main_settled:
  assumes "\<forall>k b. batches_retrieve env k = Inr b \<longrightarrow> obj_id b = k"
  shows "start_retriever (fst (main env r)) = fst (main env r)"
    and "\<forall>k\<in>set (batch_ids_to_check (fst (main env r))).
           k \<notin> processed_batch_ids (fst (main env r)) \<longrightarrow>
             (\<forall>b. batches_retrieve env k = Inr b \<longrightarrow> obj_status b \<noteq> ''completed'')"
proof -
  let ?r0 = "start_retriever r"
  let ?r1 = "fst (run env ?r0)"
  have m: "fst (main env r) = ?r1" by (simp add: main_def)
  have p: "processed_batch_ids ?r1
      = processed_batch_ids ?r0 \<union> obj_id ` set (fst (get_new_completed_batches env ?r0))"
    by (rule run_processed)
  have "load_processed_state ?r1 = processed_batch_ids ?r1"
  proof (cases "fst (get_new_completed_batches env ?r0) = []")
    case True
    with run_nothing_new[OF True] show ?thesis
      by (simp add: start_retriever_def load_processed_state_def)
  next
    case False
    with run_processed_file[of env ?r0] show ?thesis
      by (simp add: load_processed_state_def)
  qed
  then show "start_retriever (fst (main env r)) = fst (main env r)"
    unfolding m by (simp add: start_retriever_def)
  have ids: "batch_ids_to_check ?r1 = batch_ids_to_check ?r0"
    by (simp add: batch_ids_to_check_def run_submission_file)
  show "\<forall>k\<in>set (batch_ids_to_check (fst (main env r))).
           k \<notin> processed_batch_ids (fst (main env r)) \<longrightarrow>
             (\<forall>b. batches_retrieve env k = Inr b \<longrightarrow> obj_status b \<noteq> ''completed'')"
    unfolding m ids
  proof (intro ballI impI allI notI)
    fix k b
    assume k: "k \<in> set (batch_ids_to_check ?r0)" and np: "k \<notin> processed_batch_ids ?r1"
      and b: "batches_retrieve env k = Inr b" and c: "obj_status b = ''completed''"
    from np p have "k \<notin> processed_batch_ids ?r0" by simp
    with k b c have "b \<in> set (fst (get_new_completed_batches env ?r0))"
      by (auto simp: get_new_completed_batches_set)
    with p have "obj_id b \<in> processed_batch_ids ?r1" by simp
    with assms b np show False by simp
  qed
qed

text \<open>
  Claim C7 (idempotent reconciliation). A run never queries the status of a handle that is
  in the processed set. When every handle of the submission state that the service
  reports completed is already in the processed set, a run changes nothing (the processed
  set, the three files and so the result store are as before) and downloads nothing.
  And when the service answers a status query with the batch of the queried handle, a
  second invocation of the script after a first one, against the same submission state
  and the same service, leaves everything as the first one left it.
\<close>

theorem processed_batches_are_skipped:
  "(\<forall>h\<in>processed_batch_ids r. Retrieve h \<notin> set (fst (snd (run env r))))
   \<and> ((\<forall>k\<in>set (batch_ids_to_check r). k \<notin> processed_batch_ids r \<longrightarrow>
          (\<forall>b. batches_retrieve env k = Inr b \<longrightarrow> obj_status b \<noteq> ''completed''))
       \<longrightarrow> fst (run env r) = r \<and> snd (snd (run env r)) = NoNewResults
           \<and> (\<forall>f. Download f \<notin> set (fst (snd (run env r)))))
   \<and> ((\<forall>k b. batches_retrieve env k = Inr b \<longrightarrow> obj_id b = k)
       \<longrightarrow> fst (main env (fst (main env r))) = fst (main env r)
           \<and> snd (snd (main env (fst (main env r)))) = NoNewResults
           \<and> (\<forall>f. Download f \<notin> set (fst (snd (main env (fst (main env r)))))))"
proof (intro conjI impI ballI allI)
  fix h assume "h \<in> processed_batch_ids r"
  then show "Retrieve h \<notin> set (fst (snd (run env r)))"
    using run_retrieve_calls(2) by blast
next
  assume a: "\<forall>k\<in>set (batch_ids_to_check r). k \<notin> processed_batch_ids r \<longrightarrow>
          (\<forall>b. batches_retrieve env k = Inr b \<longrightarrow> obj_status b \<noteq> ''completed'')"
  show "fst (run env r) = r" by (rule run_all_processed(1)[OF a])
  show "snd (snd (run env r)) = NoNewResults" by (rule run_all_processed(2)[OF a])
  show "Download f \<notin> set (fst (snd (run env r)))" for f by (rule run_all_processed(3)[OF a])
next
  assume c: "\<forall>k b. batches_retrieve env k = Inr b \<longrightarrow> obj_id b = k"
  note s = main_settled[OF c, of r]
  have m: "main env (fst (main env r)) = run env (fst (main env r))"
    using s(1) by (simp add: main_def)
  show "fst (main env (fst (main env r))) = fst (main env r)"
    unfolding m by (rule run_all_processed(1)[OF s(2)])
  show "snd (snd (main env (fst (main env r)))) = NoNewResults"
    unfolding m by (rule run_all_processed(2)[OF s(2)])
  show "Download f \<notin> set (fst (snd (main env (fst (main env r)))))" for f
    unfolding m by (rule run_all_processed(3)[OF s(2)])
qed

theorem processed_batches_are_skipped_witness:
  "processed_batch_ids (fst (main demo_service (demo_retriever (save_state demo_tracking))))
     = {''batch_2'', ''batch_1''}
   \<and> stored_results (fst (main demo_service (demo_retriever (save_state demo_tracking))))
       = [(''a.txt'', ''v2''), (''b.txt'', ''v1'')]
   \<and> fst (main demo_service (fst (main demo_service (demo_retriever (save_state demo_tracking)))))
       = fst (main demo_service (demo_retriever (save_state demo_tracking)))
   \<and> snd (snd (main demo_service
                 (fst (main demo_service (demo_retriever (save_state demo_tracking))))))
       = NoNewResults"
proof -
  let ?r = "demo_retriever (save_state demo_tracking)"
  have c: "\<forall>k b. batches_retrieve demo_service k = Inr b \<longrightarrow> obj_id b = k"
    by (auto simp: demo_service_def demo_retrieve_def split: if_splits)
  have p: "processed_batch_ids (fst (main demo_service ?r)) = {''batch_2'', ''batch_1''}"
    by (simp add: retrieval_defs)
  have s: "stored_results (fst (main demo_service ?r)) = [(''a.txt'', ''v2''), (''b.txt'', ''v1'')]"
    by (simp add: retrieval_defs)
  note t = processed_batches_are_skipped[where env = demo_service and r = "?r",
      THEN conjunct2, THEN conjunct2, THEN mp, OF c]
  from t have "fst (main demo_service (fst (main demo_service ?r))) = fst (main demo_service ?r)"
    by (rule conjunct1)
  moreover from t have "snd (snd (main demo_service (fst (main demo_service ?r)))) = NoNewResults"
    by (rule conjunct2[THEN conjunct1])
  ultimately show ?thesis using p s by (intro conjI)
qed

text \<open>
  Claim C8 fails on the code. Here two batches are completed and every download of an
  output file raises: \<^verbatim>\<open>process_batch_result\<close> returns the empty dict, \<^verbatim>\<open>run\<close>
  records both handles as processed all the same and saves the set, and nothing is
  merged. The next invocation, with the downloads working again, skips both handles:
  it queries only the batch still in progress and the merged file is never written.
\<close>

theorem failed_fetch_marks_batch_processed:
  "processed_batch_ids (fst (main demo_service_down (demo_retriever (save_state demo_tracking))))
     = {''batch_2'', ''batch_1''}
   \<and> processed_batches_file
        (fst (main demo_service_down (demo_retriever (save_state demo_tracking))))
       = Some (Inr {''batch_2'', ''batch_1''})
   \<and> merged_output_file (fst (main demo_service_down (demo_retriever (save_state demo_tracking))))
       = None
   \<and> snd (main demo_service_down (demo_retriever (save_state demo_tracking)))
       = ([Retrieve ''batch_1'', Retrieve ''batch_2'', Retrieve ''batch_3'',
           Download ''out_1'', Download ''out_2''], NoValidData)
   \<and> snd (main demo_service
             (fst (main demo_service_down (demo_retriever (save_state demo_tracking)))))
       = ([Retrieve ''batch_3''], NoNewResults)
   \<and> merged_output_file
        (fst (main demo_service
               (fst (main demo_service_down (demo_retriever (save_state demo_tracking))))))
       = None"
  by (simp add: retrieval_defs)

section \<open>The two scripts together\<close>

lemma queue_size_loop_keys:
  assumes "queue_size_loop retrieve ids batches total_tok = Inr (batches', total_tok')"
  shows "fst ` set batches' \<subseteq> fst ` set batches"
  using assms
proof (induction ids arbitrary: batches total_tok)
  case Nil
  then show ?case by simp
next
  case (Cons b ids)
  from Cons.prems obtain r where r: "map_of batches b = Some r"
    by (cases "map_of batches b") auto
  then have bk: "b \<in> fst ` set batches" by (metis map_of_eq_None_iff option.distinct(1))
  have u: "fst ` set (AList.update b v batches) \<subseteq> fst ` set batches" for v
    using bk by (simp add: dom_update)
  have du: "fst ` set (AList.delete b (AList.update b v batches)) \<subseteq> fst ` set batches" for v
    using u[of v] dom_delete_subset[of b "AList.update b v batches"] by blast
  show ?case
  proof (cases "retrieve b")
    case (Inl e)
    with Cons.prems r Cons.IH show ?thesis by auto
  next
    case (Inr st)
    with Cons.prems r obtain bs1 t1 where
      rec: "queue_size_loop retrieve ids bs1 t1 = Inr (batches', total_tok')"
      and bs1: "bs1 = AList.update b (r\<lparr>status := st\<rparr>) batches
             \<or> bs1 = AList.delete b (AList.update b (r\<lparr>status := st\<rparr>) batches)"
      by (auto simp: Let_def split: if_splits option.splits)
    from Cons.IH[OF rec] bs1 u du show ?thesis by blast
  qed
qed

lemma refresh_keeps_untracked:
  assumes "get_current_queue_size env m = Inr (m', total_tok)" and "untracked h m"
  shows "untracked h m'"
proof (cases "active_batches (state m) = []")
  case True
  with assms show ?thesis by (simp add: get_current_queue_size_def)
next
  case False
  with assms(1) obtain batches' where
    l: "queue_size_loop (retrieve_status env) (map fst (active_batches (state m)))
          (active_batches (state m)) 0 = Inr (batches', total_tok)"
    and m': "m' = save_state (m\<lparr>state := (state m)\<lparr>active_batches := batches'\<rparr>\<rparr>)"
    by (auto simp: get_current_queue_size_def split: sum.splits)
  from queue_size_loop_keys[OF l] assms(2) show ?thesis
    unfolding m' by (auto simp: untracked_def save_state_def)
qed

lemma submit_new_batch_batches:
  assumes "submit_new_batch env cap m = Inr (m', rep)"
  shows "active_batches (state m') = active_batches (state m)
    \<or> (\<exists>new_id new_status uploaded_id info.
          create_batch env (built rep) = Inr (new_id, new_status, uploaded_id)
          \<and> active_batches (state m') = AList.update new_id info (active_batches (state m)))"
  using assms
  by (auto simp: submit_new_batch_def save_state_def Let_def
      split: if_splits sum.splits prod.splits)

lemma submit_keeps_untracked:
  assumes "submit_new_batch env cap m = Inr (m', rep)" and "untracked h m"
    and "\<forall>fs new_status uploaded_id. create_batch env fs \<noteq> Inr (h, new_status, uploaded_id)"
  shows "untracked h m'"
proof -
  from assms(2) have k: "h \<notin> fst ` set (active_batches (state m))"
    by (simp add: untracked_def)
  have k': "h \<notin> fst ` set (active_batches (state m'))"
  proof -
    from submit_new_batch_batches[OF assms(1)] consider
      "active_batches (state m') = active_batches (state m)"
      | new_id new_status uploaded_id info where
        "create_batch env (built rep) = Inr (new_id, new_status, uploaded_id)"
        "active_batches (state m') = AList.update new_id info (active_batches (state m))"
      by blast
    then show ?thesis
    proof cases
      case 1
      with k show ?thesis by simp
    next
      case 2
      with assms(3) have "new_id \<noteq> h" by blast
      with 2(2) k show ?thesis by (simp add: dom_update)
    qed
  qed
  from submit_new_batch_saved[OF assms(1)] assms(2) k' show ?thesis
    by (auto simp: untracked_def split: if_splits option.splits)
qed

lemma submission_run_keeps_untracked:
  assumes "submission_run envs m = Inr ms" and "untracked h m"
    and "\<forall>env\<in>set envs. \<forall>fs new_status uploaded_id.
           create_batch env fs \<noteq> Inr (h, new_status, uploaded_id)"
  shows "\<forall>m2\<in>set ms. untracked h m2"
  using assms
proof (induction envs arbitrary: m ms)
  case Nil
  then show ?case by simp
next
  case (Cons env later)
  from Cons.prems(1) obtain ma t where
    a: "get_current_queue_size env m = Inr (ma, t)"
    by (auto split: sum.splits)
  from refresh_keeps_untracked[OF a Cons.prems(2)] have ua: "untracked h ma" .
  from Cons.prems(1) a obtain mb rep where
    b: "(if QUEUE_LIMIT_TOKENS - t > 0
               then submit_new_batch env (QUEUE_LIMIT_TOKENS - t) ma
               else Inr (ma, \<lparr>built = [], scan_log = [], accepted = False\<rparr>)) = Inr (mb, rep)"
    by (auto split: sum.splits prod.splits simp del: submit_sequence.simps)
  have ub: "untracked h mb"
  proof (cases "QUEUE_LIMIT_TOKENS - t > 0")
    case True
    with b have "submit_new_batch env (QUEUE_LIMIT_TOKENS - t) ma = Inr (mb, rep)" by simp
    from submit_keeps_untracked[OF this ua] Cons.prems(3) show ?thesis by simp
  next
    case False
    with b ua show ?thesis by simp
  qed
  show ?case
  proof (cases "all_files_submitted (state mb) \<and> active_batches (state mb) = []")
    case True
    with Cons.prems(1) a b have "ms = [ma, mb]" by (auto split: sum.splits)
    with ua ub show ?thesis by simp
  next
    case False
    with Cons.prems(1) a b obtain rest where
      r: "submission_run later mb = Inr rest" and ms: "ms = ma # mb # rest"
      by (auto split: sum.splits)
    from Cons.IH[OF r ub] Cons.prems(3) ms ua ub show ?thesis by simp
  qed
qed

lemma submission_run_later_untracked:
  assumes "submission_run envs m = Inr (pre @ m1 # post)" and "untracked h m1"
    and "\<forall>env\<in>set envs. \<forall>fs new_status uploaded_id.
           create_batch env fs \<noteq> Inr (h, new_status, uploaded_id)"
  shows "\<forall>m2\<in>set post. untracked h m2"
  using assms
proof (induction envs arbitrary: m pre)
  case Nil
  then show ?case by simp
next
  case (Cons env later)
  from Cons.prems(1) obtain ma t where
    a: "get_current_queue_size env m = Inr (ma, t)"
    by (auto split: sum.splits)
  from Cons.prems(1) a obtain mb rep where
    b: "(if QUEUE_LIMIT_TOKENS - t > 0
               then submit_new_batch env (QUEUE_LIMIT_TOKENS - t) ma
               else Inr (ma, \<lparr>built = [], scan_log = [], accepted = False\<rparr>)) = Inr (mb, rep)"
    by (auto split: sum.splits prod.splits)
  have step: "untracked h mb" if "untracked h ma"
  proof (cases "QUEUE_LIMIT_TOKENS - t > 0")
    case True
    with b have "submit_new_batch env (QUEUE_LIMIT_TOKENS - t) ma = Inr (mb, rep)" by simp
    from submit_keeps_untracked[OF this that] Cons.prems(3) show ?thesis by simp
  next
    case False
    with b that show ?thesis by simp
  qed
  from Cons.prems(3) have later: "\<forall>env\<in>set later. \<forall>fs new_status uploaded_id.
           create_batch env fs \<noteq> Inr (h, new_status, uploaded_id)" by simp
  have "\<exists>rest. pre @ m1 # post = ma # mb # rest
           \<and> (rest = [] \<or> submission_run later mb = Inr rest)"
  proof (cases "all_files_submitted (state mb) \<and> active_batches (state mb) = []")
    case True
    with Cons.prems(1) a b have "pre @ m1 # post = [ma, mb]" by (auto split: sum.splits)
    then show ?thesis by simp
  next
    case False
    with Cons.prems(1) a b obtain rest where
      "submission_run later mb = Inr rest" "pre @ m1 # post = ma # mb # rest"
      by (auto split: sum.splits)
    then show ?thesis by blast
  qed
  then obtain rest where
    ms: "pre @ m1 # post = ma # mb # rest"
    and r: "rest = [] \<or> submission_run later mb = Inr rest"
    by blast
  have tail: "\<forall>m2\<in>set rest. untracked h m2" if "untracked h mb"
  proof (cases "rest = []")
    case True
    then show ?thesis by simp
  next
    case False
    with r have "submission_run later mb = Inr rest" by simp
    from submission_run_keeps_untracked[OF this that later] show ?thesis .
  qed
  show ?case
  proof (cases pre)
    case Nil
    with ms have e: "m1 = ma" "post = mb # rest" by simp_all
    with Cons.prems(2) have ub: "untracked h mb" by (intro step) simp
    from tail[OF ub] ub e(2) show ?thesis by simp
  next
    case (Cons p pre1)
    note pre = this
    show ?thesis
    proof (cases pre1)
      case Nil
      with pre ms have e: "m1 = mb" "post = rest" by simp_all
      with Cons.prems(2) have ub: "untracked h mb" by simp
      from tail[OF ub] e(2) show ?thesis by simp
    next
      case (Cons q pre2)
      with pre ms have rest: "rest = pre2 @ m1 # post" by simp
      then have "rest \<noteq> []" by simp
      with r rest have "submission_run later mb = Inr (pre2 @ m1 # post)" by simp
      from Cons.IH[OF this Cons.prems(2) later] show ?thesis .
    qed
  qed
qed

lemma refresh_drops_terminal:
  assumes "get_current_queue_size env m = Inr (m', total_tok)"
    and "distinct (map fst (active_batches (state m)))"
    and "map_of (active_batches (state m)) h = Some info"
    and "retrieve_status env h = Inr st" and "st \<in> set terminal_statuses"
  shows "h \<notin> fst ` set (active_batches (state m'))"
proof -
  let ?ab = "active_batches (state m)"
  have pres: "\<forall>k\<in>set (map fst ?ab). map_of ?ab k \<noteq> None"
    by (auto simp: map_of_eq_None_iff)
  from assms(3) have ne: "?ab \<noteq> []" and hk: "h \<in> set (map fst ?ab)"
    by (auto dest: map_of_SomeD intro: rev_image_eqI)
  from queue_size_loop_result[OF assms(2) pres, of "retrieve_status env" 0] obtain batches' t where
    run: "queue_size_loop (retrieve_status env) (map fst ?ab) ?ab 0 = Inr (batches', t)"
    and kept: "\<forall>k. map_of batches' k =
           (if k \<in> set (map fst ?ab) then
              (case map_of ?ab k of
                 None \<Rightarrow> None
               | Some r \<Rightarrow> (case retrieve_status env k of
                     Inl e \<Rightarrow> Some r
                   | Inr st \<Rightarrow> if st \<in> set terminal_statuses then None
                              else Some (r\<lparr>status := st\<rparr>)))
            else map_of ?ab k)"
    by blast
  from assms(1) ne run have "active_batches (state m') = batches'"
    by (auto simp: get_current_queue_size_def save_state_def)
  moreover from kept hk assms(3,4,5) have "map_of batches' h = None" by simp
  ultimately show ?thesis by (simp add: map_of_eq_None_iff)
qed

lemma batch_ids_of_saved_state:
  assumes "submission_state_file r = map_option Inr (state_file m)"
  shows "set (batch_ids_to_check r)
           = (case state_file m of None \<Rightarrow> {} | Some s \<Rightarrow> fst ` set (active_batches s))"
  using assms by (auto simp: batch_ids_to_check_def split: option.splits)

text \<open>
  Claim C10. Suppose a refresh of the submission script finds the tracked handle \<open>h\<close>
  in a terminal status, so that it deletes \<open>h\<close> from \<^verbatim>\<open>active_batches\<close> and saves
  the state; suppose the main loop goes on for any number of iterations in which the
  service never issues \<open>h\<close> again as the id of a new batch; and let the retrieval script
  read the state file as it is after that refresh or after any later step of the loop.
  Then the candidate handles of the retrieval script are exactly the keys of
  \<^verbatim>\<open>active_batches\<close> in that file, \<open>h\<close> is not among them, a run never queries
  \<open>h\<close>, and everything a run queries or downloads belongs to a candidate handle: the
  output of \<open>h\<close> is never fetched, hence never merged.
\<close>

theorem deleted_batch_is_never_reconciled:
  assumes "get_current_queue_size env0 m0 = Inr (m1, total_tok)"
    and "distinct (map fst (active_batches (state m0)))"
    and "map_of (active_batches (state m0)) h = Some info"
    and "retrieve_status env0 h = Inr st" and "st \<in> set terminal_statuses"
    and "submission_run envs m = Inr (pre @ m1 # post)"
    and "\<forall>env\<in>set envs. \<forall>fs new_status uploaded_id.
           create_batch env fs \<noteq> Inr (h, new_status, uploaded_id)"
    and "m2 \<in> set (m1 # post)"
    and "submission_state_file r = map_option Inr (state_file m2)"
  shows "h \<notin> fst ` set (active_batches (state m1))
    \<and> state_file m1 = Some (state m1)
    \<and> set (batch_ids_to_check r)
         = (case state_file m2 of None \<Rightarrow> {} | Some s \<Rightarrow> fst ` set (active_batches s))
    \<and> h \<notin> set (batch_ids_to_check r)
    \<and> Retrieve h \<notin> set (fst (snd (run renv r)))
    \<and> (\<forall>c\<in>set (fst (snd (run renv r))).
          \<exists>k\<in>set (batch_ids_to_check r).
            c = Retrieve k
            \<or> (\<exists>b f. batches_retrieve renv k = Inr b \<and> output_file_id b = Some f
                      \<and> c = Download f))"
proof -
  from refresh_drops_terminal[OF assms(1,2,3,4,5)]
  have k1: "h \<notin> fst ` set (active_batches (state m1))" .
  from assms(3) have "active_batches (state m0) \<noteq> []" by auto
  with get_current_queue_size_saved(1)[OF assms(1)] have f1: "state_file m1 = Some (state m1)"
    by simp
  from k1 f1 have u1: "untracked h m1" by (simp add: untracked_def)
  have u2: "untracked h m2"
    using assms(8) u1 submission_run_later_untracked[OF assms(6) u1 assms(7)] by auto
  note ids = batch_ids_of_saved_state[OF assms(9)]
  from u2 ids have k2: "h \<notin> set (batch_ids_to_check r)"
    by (auto simp: untracked_def split: option.splits)
  from k2 run_retrieve_calls(1)[of h renv r] have nr: "Retrieve h \<notin> set (fst (snd (run renv r)))"
    by blast
  have calls: "\<exists>k\<in>set (batch_ids_to_check r).
            c = Retrieve k
            \<or> (\<exists>b f. batches_retrieve renv k = Inr b \<and> output_file_id b = Some f
                      \<and> c = Download f)"
    if c: "c \<in> set (fst (snd (run renv r)))" for c
  proof (cases c)
    case (Retrieve k)
    with c run_retrieve_calls(1)[of k renv r] show ?thesis by blast
  next
    case (Download f)
    with c run_download_calls[of f renv r] show ?thesis by blast
  qed
  from k1 f1 ids k2 nr calls show ?thesis by blast
qed

lemmas loop_defs = demo_tracking_def demo_env_def demo_status_def demo_create_def demo_read_def
  demo_encode_def get_current_queue_size_def submit_new_batch_def save_state_def
  active_statuses_def terminal_statuses_def committed_tokens_def QUEUE_LIMIT_TOKENS_def
  Let_def upto.simps

theorem deleted_batch_is_never_reconciled_witness:
  "\<exists>m1 total_tok ma mb mc.
     get_current_queue_size demo_env demo_tracking = Inr (m1, total_tok)
     \<and> submission_run [demo_env, demo_env] demo_tracking = Inr ([] @ m1 # [ma, mb, mc])
     \<and> map_of (active_batches (state demo_tracking)) ''batch_2''
          = Some \<lparr>status = ''in_progress'', submitted_at = 2, input_file_id = ''file_2'',
                  total_tokens = Some 50, file_count = 2\<rparr>
     \<and> retrieve_status demo_env ''batch_2'' = Inr ''completed''
     \<and> batches_retrieve demo_service ''batch_2''
          = Inr \<lparr>obj_id = ''batch_2'', obj_status = ''completed'', output_file_id = Some ''out_2''\<rparr>
     \<and> ''batch_2'' \<notin> set (batch_ids_to_check (demo_retriever mc))
     \<and> Retrieve ''batch_2'' \<notin> set (fst (snd (run demo_service (demo_retriever mc))))"
proof -
  obtain m1 total_tok where
    g: "get_current_queue_size demo_env demo_tracking = Inr (m1, total_tok)"
    and m1: "m1 = \<lparr>state = \<lparr>last_file_submitted_index = 5,
        active_batches =
          [(''batch_1'', \<lparr>status = ''in_progress'', submitted_at = 1, input_file_id = ''file_1'',
                          total_tokens = Some 100, file_count = 3\<rparr>),
           (''batch_3'', \<lparr>status = ''in_progress'', submitted_at = 3, input_file_id = ''file_3'',
                          total_tokens = Some 7, file_count = 1\<rparr>)],
        source_files = [], all_files_submitted = False\<rparr>,
      state_file = Some \<lparr>last_file_submitted_index = 5,
        active_batches =
          [(''batch_1'', \<lparr>status = ''in_progress'', submitted_at = 1, input_file_id = ''file_1'',
                          total_tokens = Some 100, file_count = 3\<rparr>),
           (''batch_3'', \<lparr>status = ''in_progress'', submitted_at = 3, input_file_id = ''file_3'',
                          total_tokens = Some 7, file_count = 1\<rparr>)],
        source_files = [], all_files_submitted = False\<rparr>\<rparr>"
    by (simp add: loop_defs)
  obtain ma mb mc where
    s: "submission_run [demo_env, demo_env] demo_tracking = Inr ([] @ m1 # [ma, mb, mc])"
    unfolding m1 by (simp add: loop_defs)
  have d: "distinct (map fst (active_batches (state demo_tracking)))"
    by (simp add: demo_tracking_def)
  have i: "map_of (active_batches (state demo_tracking)) ''batch_2''
          = Some \<lparr>status = ''in_progress'', submitted_at = 2, input_file_id = ''file_2'',
                  total_tokens = Some 50, file_count = 2\<rparr>"
    by (simp add: demo_tracking_def)
  have q: "retrieve_status demo_env ''batch_2'' = Inr ''completed''"
    by (simp add: demo_env_def demo_status_def)
  have t: "''completed'' \<in> set terminal_statuses" by (simp add: terminal_statuses_def)
  have n: "\<forall>env\<in>set [demo_env, demo_env]. \<forall>fs new_status uploaded_id.
           create_batch env fs \<noteq> Inr (''batch_2'', new_status, uploaded_id)"
    by (simp add: demo_env_def demo_create_def)
  have e: "mc \<in> set (m1 # [ma, mb, mc])" by simp
  have f: "submission_state_file (demo_retriever mc) = map_option Inr (state_file mc)"
    by (simp add: demo_retriever_def)
  have b: "batches_retrieve demo_service ''batch_2''
          = Inr \<lparr>obj_id = ''batch_2'', obj_status = ''completed'', output_file_id = Some ''out_2''\<rparr>"
    by (simp add: demo_service_def demo_retrieve_def)
  note c = deleted_batch_is_never_reconciled[OF g d i q t s n e f, of demo_service]
  from c have c1: "''batch_2'' \<notin> set (batch_ids_to_check (demo_retriever mc))" by blast
  from c have c2: "Retrieve ''batch_2'' \<notin> set (fst (snd (run demo_service (demo_retriever mc))))"
    by blast
  from g s i q b c1 c2 show ?thesis by blast
qed

end
